theory Spec2Isabelle
  imports Main
begin

section \<open>Strings, slices and the two compiled patterns\<close>

text \<open>
  A Go string is a sequence of bytes; so is a HOL \<open>string\<close>. Indices are Go \<open>int\<close>s
  (the code keeps \<open>-1\<close> as "not found"), modelled as \<open>int\<close>: every index the code
  computes is at most the length of a string plus six, far from the 64-bit bound.

  A slice expression \<open>s[lo:hi]\<close> panics unless \<open>0 \<le> lo \<le> hi \<le> len(s)\<close>; the panic is
  the value \<open>None\<close>.
\<close>

definition slice :: "string \<Rightarrow> int \<Rightarrow> int \<Rightarrow> string option" where
  "slice s lo hi =
     (if 0 \<le> lo \<and> lo \<le> hi \<and> hi \<le> int (length s)
      then Some (take (nat (hi - lo)) (drop (nat lo) s))
      else None)"

text \<open>\<open>strings.LastIndex(s, ")")\<close>: the index of the last occurrence of a byte, or \<open>-1\<close>.\<close>

fun LastIndex :: "string \<Rightarrow> char \<Rightarrow> int" where
  "LastIndex [] c = -1"
| "LastIndex (x # xs) c =
     (let r = LastIndex xs c
      in if 0 \<le> r then r + 1 else if x = c then 0 else -1)"

text \<open>
  \<open>strings.TrimSpace\<close> removes leading and trailing runes for which \<open>unicode.IsSpace\<close>
  holds. On the bytes of the string these are the UTF-8 encodings below: the six ASCII
  spaces, U+0085, U+00A0, U+1680, U+2000 to U+200A, U+2028, U+2029, U+202F, U+205F and
  U+3000. No encoding is a prefix or a suffix of another one.
\<close>

definition space_encodings :: "string list" where
  "space_encodings =
     [[CHR 0x09], [CHR 0x0A], [CHR 0x0B], [CHR 0x0C], [CHR 0x0D], [CHR 0x20],
      [CHR 0xC2, CHR 0x85], [CHR 0xC2, CHR 0xA0],
      [CHR 0xE1, CHR 0x9A, CHR 0x80],
      [CHR 0xE2, CHR 0x80, CHR 0x80], [CHR 0xE2, CHR 0x80, CHR 0x81],
      [CHR 0xE2, CHR 0x80, CHR 0x82], [CHR 0xE2, CHR 0x80, CHR 0x83],
      [CHR 0xE2, CHR 0x80, CHR 0x84], [CHR 0xE2, CHR 0x80, CHR 0x85],
      [CHR 0xE2, CHR 0x80, CHR 0x86], [CHR 0xE2, CHR 0x80, CHR 0x87],
      [CHR 0xE2, CHR 0x80, CHR 0x88], [CHR 0xE2, CHR 0x80, CHR 0x89],
      [CHR 0xE2, CHR 0x80, CHR 0x8A],
      [CHR 0xE2, CHR 0x80, CHR 0xA8], [CHR 0xE2, CHR 0x80, CHR 0xA9],
      [CHR 0xE2, CHR 0x80, CHR 0xAF], [CHR 0xE2, CHR 0x81, CHR 0x9F],
      [CHR 0xE3, CHR 0x80, CHR 0x80]]"

text \<open>The number of bytes of the first alternative that the string starts with, or 0.\<close>

definition lead_width :: "string list \<Rightarrow> string \<Rightarrow> nat" where
  "lead_width alts s =
     (case filter (\<lambda>w. take (length w) s = w) alts of [] \<Rightarrow> 0 | w # _ \<Rightarrow> length w)"

function TrimLeft :: "string list \<Rightarrow> string \<Rightarrow> string" where
  "TrimLeft alts s =
     (if lead_width alts s = 0 then s else TrimLeft alts (drop (lead_width alts s) s))"
  by pat_completeness auto
termination
proof (relation "measure (\<lambda>(alts, s). length s)")
  show "wf (measure (\<lambda>(alts, s). length s))" by simp
next
  fix alts :: "string list" and s :: string
  assume w: "lead_width alts s \<noteq> 0"
  have "s \<noteq> []"
  proof
    assume "s = []"
    then have "filter (\<lambda>w. take (length w) s = w) alts = filter (\<lambda>w. w = []) alts"
      by (intro filter_cong) auto
    moreover have "(case filter (\<lambda>w. w = []) alts of [] \<Rightarrow> 0 | w # _ \<Rightarrow> length w) = 0"
    proof (cases "filter (\<lambda>w. w = []) alts")
      case Nil
      then show ?thesis by simp
    next
      case (Cons w ws)
      then have "w \<in> set (filter (\<lambda>w. w = []) alts)" by simp
      then have "w = []" by simp
      with Cons show ?thesis by simp
    qed
    ultimately show False using w by (simp add: lead_width_def)
  qed
  with w show "((alts, drop (lead_width alts s) s), (alts, s)) \<in> measure (\<lambda>(alts, s). length s)"
    by simp
qed

declare TrimLeft.simps [simp del]

definition TrimSpace :: "string \<Rightarrow> string" where
  "TrimSpace s = rev (TrimLeft (map rev space_encodings) (rev (TrimLeft space_encodings s)))"

text \<open>
  The patterns are \<open>(?i)values\<close> and \<open>(?i)on duplicate key update\<close>: a literal matched
  under simple case folding. A letter of the pattern matches itself and its capital; in
  addition \<open>s\<close> matches U+017F (bytes C5 BF) and \<open>k\<close> matches U+212A (bytes E2 84 AA), the
  two characters outside ASCII that fold to a letter. A pattern is kept as its lower-case
  literal.
\<close>

definition upper :: "char \<Rightarrow> char" where
  "upper c =
     (case map_of (zip ''abcdefghijklmnopqrstuvwxyz'' ''ABCDEFGHIJKLMNOPQRSTUVWXYZ'') c of
        None \<Rightarrow> c | Some C \<Rightarrow> C)"

definition fold_alts :: "char \<Rightarrow> string list" where
  "fold_alts p =
     (if p = CHR ''s'' then [''s'', ''S'', [CHR 0xC5, CHR 0xBF]]
      else if p = CHR ''k'' then [''k'', ''K'', [CHR 0xE2, CHR 0x84, CHR 0xAA]]
      else if upper p = p then [[p]]
      else [[p], [upper p]])"

text \<open>The length of the match of the pattern at the start of the string, if it matches there.\<close>

fun match_here :: "string \<Rightarrow> string \<Rightarrow> nat option" where
  "match_here [] s = Some 0"
| "match_here (p # ps) s =
     (let n = lead_width (fold_alts p) s
      in if n = 0 then None
         else (case match_here ps (drop n s) of None \<Rightarrow> None | Some m \<Rightarrow> Some (n + m)))"

text \<open>\<open>FindStringIndex\<close>: start and end of the leftmost match, \<open>None\<close> for Go's nil.\<close>

fun FindStringIndex :: "string \<Rightarrow> string \<Rightarrow> (nat \<times> nat) option" where
  "FindStringIndex re [] = (case match_here re [] of None \<Rightarrow> None | Some n \<Rightarrow> Some (0, n))"
| "FindStringIndex re (c # cs) =
     (case match_here re (c # cs) of
        Some n \<Rightarrow> Some (0, n)
      | None \<Rightarrow> (case FindStringIndex re cs of
                  None \<Rightarrow> None
                | Some (a, b) \<Rightarrow> Some (Suc a, Suc b)))"

text \<open>
  \<open>FindAllStringIndex(s, -1)\<close>: all successive non-overlapping matches, left to right. The
  search resumes at the end of a match; \<open>skip\<close> counts the bytes of the current match
  still to pass, \<open>i\<close> is the index of the head of the rest.
\<close>

fun FindAll_from :: "string \<Rightarrow> nat \<Rightarrow> nat \<Rightarrow> string \<Rightarrow> (nat \<times> nat) list" where
  "FindAll_from re i skip [] = []"
| "FindAll_from re i skip (c # cs) =
     (if 0 < skip then FindAll_from re (Suc i) (skip - 1) cs
      else (case match_here re (c # cs) of
              None \<Rightarrow> FindAll_from re (Suc i) 0 cs
            | Some n \<Rightarrow> (i, i + n) # FindAll_from re (Suc i) (n - 1) cs))"

definition FindAllStringIndex :: "string \<Rightarrow> string \<Rightarrow> (nat \<times> nat) list" where
  "FindAllStringIndex re s = FindAll_from re 0 0 s"

definition dupeRegexp :: string where
  "dupeRegexp = ''on duplicate key update''"

definition valuesRegexp :: string where
  "valuesRegexp = ''values''"


section \<open>The data model\<close>

text \<open>
  Go's \<open>error\<close> values, the handle \<open>*sql.DB\<close> that \<open>sql.Open(driverName, dataSourceName)\<close>
  returns and the handle \<open>*sql.Stmt\<close> that \<open>Prepare(query)\<close> returns are opaque to the
  package. A statement handle remembers the text it was prepared from.
\<close>

datatype error = Error string

datatype sqlDB = SqlDB string string

datatype stmt = Stmt string

text \<open>The calls made on the underlying connection, in the order they are made.\<close>

datatype 'v event = PrepareCall string | ExecCall stmt "'v list"

text \<open>
  The collaborator \<open>database/sql\<close>: each call returns \<open>None\<close> for a nil error. \<open>Prepare\<close>
  and \<open>Exec\<close> see the calls made so far, so that the same call may fail once and
  succeed later. As in \<open>database/sql\<close>, \<open>sql_Open\<close> only validates its arguments; it is
  \<open>Ping\<close> that tells whether the database can be reached.
\<close>

record 'v driver =
  sql_Open :: "string \<Rightarrow> string \<Rightarrow> error option"
  Ping :: "sqlDB \<Rightarrow> error option"
  Prepare :: "'v event list \<Rightarrow> sqlDB \<Rightarrow> string \<Rightarrow> error option"
  Exec :: "'v event list \<Rightarrow> stmt \<Rightarrow> 'v list \<Rightarrow> error option"

text \<open>
  \<open>type insert struct\<close>. The field \<open>values\<close> is \<open>values_str\<close> here. \<open>insertCtr\<close> is a
  \<open>uint\<close>; it is a \<open>nat\<close> here, since it cannot wrap: it is only ever incremented
  together with an append of at least one byte to \<open>values\<close>, and reset with it, so it
  stays below the length of a string (lemma \<open>insertCtr_cannot_wrap\<close>).
\<close>

record 'v insert_t =
  bindParams :: "'v list"
  insertCtr :: nat
  queryPart1 :: string
  queryPart2 :: string
  queryPart3 :: string
  values_str :: string

text \<open>
  \<open>type DB struct\<close>; the embedded \<open>*sql.DB\<close> is the field \<open>sqlDB\<close>. Each key of
  \<open>batchInserts\<close> owns its own \<open>*insert\<close>, so the map holds the structs themselves. The
  last two fields are not in the code: \<open>trace\<close> records the calls made on the connection
  and \<open>splitCalls\<close> the templates \<open>splitQuery\<close> was called with. No branch reads them.
\<close>

record 'v DB =
  sqlDB :: sqlDB
  PreparedStatements :: "string \<rightharpoonup> stmt"
  prepstmts :: "string \<rightharpoonup> stmt"
  driverName :: string
  flushInterval :: nat
  batchInserts :: "string \<rightharpoonup> 'v insert_t"
  trace :: "'v event list"
  splitCalls :: "string list"

section \<open>The operations\<close>

definition Open :: "'v driver \<Rightarrow> string \<Rightarrow> string \<Rightarrow> nat \<Rightarrow> error + 'v DB" where
  "Open env drv dataSourceName interval =
     (case sql_Open env drv dataSourceName of
        Some err \<Rightarrow> Inl err
      | None \<Rightarrow>
          Inr \<lparr>sqlDB = SqlDB drv dataSourceName,
               PreparedStatements = Map.empty,
               prepstmts = Map.empty,
               driverName = drv,
               flushInterval = interval,
               batchInserts = Map.empty,
               trace = [],
               splitCalls = []\<rparr>)"

definition setDB :: "'v driver \<Rightarrow> 'v DB \<Rightarrow> sqlDB \<Rightarrow> 'v DB \<times> error option" where
  "setDB env d dbh =
     (case Ping env dbh of
        Some err \<Rightarrow> (d, Some err)
      | None \<Rightarrow> (d\<lparr>sqlDB := dbh\<rparr>, None))"

definition newInsert :: "'v insert_t" where
  "newInsert =
     \<lparr>bindParams = [], insertCtr = 0, queryPart1 = [], queryPart2 = [], queryPart3 = [],
      values_str = '' VALUES''\<rparr>"

text \<open>The three indices \<open>splitQuery\<close> computes before it slices.\<close>

definition ndxParens :: "string \<Rightarrow> int" where
  "ndxParens query = LastIndex query (CHR '')'')"

definition ndxValues :: "string \<Rightarrow> int" where
  "ndxValues query =
     (case FindStringIndex valuesRegexp query of None \<Rightarrow> -1 | Some (a, b) \<Rightarrow> int a)"

definition ndxOnDupe :: "string \<Rightarrow> int" where
  "ndxOnDupe query =
     (case FindAllStringIndex dupeRegexp query of [] \<Rightarrow> -1 | m # ms \<Rightarrow> int (fst (last (m # ms))))"

text \<open>\<open>splitQuery\<close> returns the updated struct, or \<open>None\<close> when a slice expression panics.\<close>

definition splitQuery :: "'v insert_t \<Rightarrow> string \<Rightarrow> 'v insert_t option" where
  "splitQuery ins query =
     (case slice query 0 (ndxValues query) of
        None \<Rightarrow> None
      | Some p1 \<Rightarrow>
          (if ndxOnDupe query \<noteq> -1
           then (case slice query (ndxValues query + 6) (ndxOnDupe query - 1) of
                   None \<Rightarrow> None
                 | Some p2 \<Rightarrow>
                     (case slice query (ndxOnDupe query) (int (length query)) of
                        None \<Rightarrow> None
                      | Some p3 \<Rightarrow>
                          Some (ins\<lparr>queryPart1 := TrimSpace p1,
                                    queryPart2 := p2 @ '','',
                                    queryPart3 := p3\<rparr>)))
           else (case slice query (ndxValues query + 6) (ndxParens query + 1) of
                   None \<Rightarrow> None
                 | Some p2 \<Rightarrow>
                     Some (ins\<lparr>queryPart1 := TrimSpace p1, queryPart2 := p2 @ '',''\<rparr>))))"

text \<open>
  \<open>flushInsert\<close> returns the connection, the struct it was given and the error; \<open>None\<close>
  is the panic of \<open>in.values[:len(in.values)-1]\<close> on an empty \<open>values\<close>. The body after
  the declaration of \<open>query\<close> is \<open>flushQuery\<close>.
\<close>

definition flushQuery ::
  "'v driver \<Rightarrow> 'v DB \<Rightarrow> 'v insert_t \<Rightarrow> string \<Rightarrow> 'v DB \<times> 'v insert_t \<times> error option" where
  "flushQuery env d ins query =
     (case (case prepstmts d query of
              Some st \<Rightarrow> Inr (d, st)
            | None \<Rightarrow>
                (case Prepare env (trace d) (sqlDB d) query of
                   None \<Rightarrow>
                     Inr (d\<lparr>prepstmts := (prepstmts d)(query \<mapsto> Stmt query),
                             trace := trace d @ [PrepareCall query]\<rparr>, Stmt query)
                 | Some err \<Rightarrow> Inl (d\<lparr>trace := trace d @ [PrepareCall query]\<rparr>, err))) of
        Inl (d1, err) \<Rightarrow> (d1, ins, Some err)
      | Inr (d1, st) \<Rightarrow>
          (case Exec env (trace d1) st (bindParams ins) of
             Some err \<Rightarrow>
               (d1\<lparr>trace := trace d1 @ [ExecCall st (bindParams ins)]\<rparr>, ins, Some err)
           | None \<Rightarrow>
               (d1\<lparr>trace := trace d1 @ [ExecCall st (bindParams ins)]\<rparr>,
                ins\<lparr>values_str := '' VALUES'', bindParams := [], insertCtr := 0\<rparr>,
                None)))"

definition flushInsert ::
  "'v driver \<Rightarrow> 'v DB \<Rightarrow> 'v insert_t \<Rightarrow> ('v DB \<times> 'v insert_t \<times> error option) option" where
  "flushInsert env d ins =
     (case slice (values_str ins) 0 (int (length (values_str ins)) - 1) of
        None \<Rightarrow> None
      | Some vs \<Rightarrow> Some (flushQuery env d ins (queryPart1 ins @ vs @ queryPart3 ins)))"

definition BatchInsert ::
  "'v driver \<Rightarrow> 'v DB \<Rightarrow> string \<Rightarrow> 'v list \<Rightarrow> ('v DB \<times> error option) option" where
  "BatchInsert env d query params =
     (let ins0 = (case batchInserts d query of None \<Rightarrow> newInsert | Some i \<Rightarrow> i);
          split = (queryPart1 ins0 = []);
          d1 = (if split then d\<lparr>splitCalls := splitCalls d @ [query]\<rparr> else d)
      in case (if split then splitQuery ins0 query else Some ins0) of
           None \<Rightarrow> None
         | Some ins1 \<Rightarrow>
             (let ins2 = ins1\<lparr>insertCtr := insertCtr ins1 + 1,
                              values_str := values_str ins1 @ queryPart2 ins1,
                              bindParams := bindParams ins1 @ params\<rparr>
              in if flushInterval d1 \<le> insertCtr ins2
                 then (case flushInsert env d1 ins2 of
                         None \<Rightarrow> None
                       | Some (d2, ins3, err) \<Rightarrow>
                           Some (d2\<lparr>batchInserts := (batchInserts d2)(query \<mapsto> ins3)\<rparr>, err))
                 else Some (d1\<lparr>batchInserts := (batchInserts d1)(query \<mapsto> ins2)\<rparr>, None)))"

text \<open>
  \<open>FlushAll\<close> ranges over a Go map, in an order the language leaves open: \<open>ks\<close> is the
  order in which the keys are visited, any enumeration of the keys of \<open>batchInserts\<close>.
\<close>

fun FlushAll :: "'v driver \<Rightarrow> 'v DB \<Rightarrow> string list \<Rightarrow> ('v DB \<times> error option) option" where
  "FlushAll env d [] = Some (d, None)"
| "FlushAll env d (k # ks) =
     (case batchInserts d k of
        None \<Rightarrow> FlushAll env d ks
      | Some ins \<Rightarrow>
          (case flushInsert env d ins of
             None \<Rightarrow> None
           | Some (d1, ins1, Some err) \<Rightarrow> Some (d1\<lparr>batchInserts := Map.empty\<rparr>, Some err)
           | Some (d1, ins1, None) \<Rightarrow>
               FlushAll env (d1\<lparr>batchInserts := (batchInserts d1)(k \<mapsto> ins1)\<rparr>) ks))"

definition key_order :: "'v DB \<Rightarrow> string list \<Rightarrow> bool" where
  "key_order d ks = (distinct ks \<and> set ks = dom (batchInserts d))"

text \<open>The flush of the one batch kept for a template: \<open>flushInsert\<close> on the struct of the registry.\<close>

definition Flush :: "'v driver \<Rightarrow> 'v DB \<Rightarrow> string \<Rightarrow> ('v DB \<times> error option) option" where
  "Flush env d k =
     (case batchInserts d k of
        None \<Rightarrow> Some (d, None)
      | Some ins \<Rightarrow>
          (case flushInsert env d ins of
             None \<Rightarrow> None
           | Some (d1, ins1, err) \<Rightarrow>
               Some (d1\<lparr>batchInserts := (batchInserts d1)(k \<mapsto> ins1)\<rparr>, err)))"

text \<open>Sequences of operations on one connection; the caller goes on after an error.\<close>

datatype 'v op = OpBatchInsert string "'v list" | OpFlush string | OpFlushAll "string list"

fun step :: "'v driver \<Rightarrow> 'v DB \<Rightarrow> 'v op \<Rightarrow> ('v DB \<times> error option) option" where
  "step env d (OpBatchInsert query params) = BatchInsert env d query params"
| "step env d (OpFlush k) = Flush env d k"
| "step env d (OpFlushAll ks) = FlushAll env d ks"

fun run :: "'v driver \<Rightarrow> 'v DB \<Rightarrow> 'v op list \<Rightarrow> 'v DB option" where
  "run env d [] = Some d"
| "run env d (x # xs) =
     (case step env d x of None \<Rightarrow> None | Some (d1, err) \<Rightarrow> run env d1 xs)"


section \<open>Notions used to state the properties\<close>

text \<open>The text \<open>flushInsert\<close> sends when \<open>values\<close> is not empty: its last byte is dropped.\<close>

definition materialized :: "'v insert_t \<Rightarrow> string" where
  "materialized ins = queryPart1 ins @ butlast (values_str ins) @ queryPart3 ins"

text \<open>The three assignments of \<open>BatchInsert\<close> that buffer one row.\<close>

definition add_row :: "'v insert_t \<Rightarrow> 'v list \<Rightarrow> 'v insert_t" where
  "add_row ins params =
     ins\<lparr>insertCtr := insertCtr ins + 1,
         values_str := values_str ins @ queryPart2 ins,
         bindParams := bindParams ins @ params\<rparr>"

text \<open>A batch with no pending row holds the bare keyword and no parameter.\<close>

definition drained_ok :: "'v insert_t \<Rightarrow> bool" where
  "drained_ok ins =
     (insertCtr ins = 0 \<longrightarrow> values_str ins = '' VALUES'' \<and> bindParams ins = [])"

definition registry_ok :: "'v DB \<Rightarrow> bool" where
  "registry_ok d = (\<forall>q ins. batchInserts d q = Some ins \<longrightarrow> drained_ok ins)"

text \<open>
  The row counter is bounded by the buffered text: every row adds at least the
  separator to \<open>values\<close>.
\<close>

definition counter_bounded :: "'v insert_t \<Rightarrow> bool" where
  "counter_bounded ins =
     (insertCtr ins + length '' VALUES'' \<le> length (values_str ins) \<and> queryPart2 ins \<noteq> [])"

text \<open>The split triple of a struct.\<close>

definition parts :: "'v insert_t \<Rightarrow> string \<times> string \<times> string" where
  "parts ins = (queryPart1 ins, queryPart2 ins, queryPart3 ins)"

text \<open>
  For a template \<open>q\<close> and its split \<open>sf\<close>: \<open>splitQuery\<close> has been called with \<open>q\<close> exactly
  once if the registry has a batch for \<open>q\<close>, which then carries the triple of \<open>sf\<close>, and
  never otherwise.
\<close>

definition split_once :: "'v insert_t \<Rightarrow> string \<Rightarrow> 'v DB \<Rightarrow> bool" where
  "split_once sf q d =
     (case batchInserts d q of
        None \<Rightarrow> count_list (splitCalls d) q = 0
      | Some ins \<Rightarrow> count_list (splitCalls d) q = 1 \<and> parts ins = parts sf)"

text \<open>Every batch the registry holds for \<open>q\<close> carries the triple of \<open>sf\<close>.\<close>

definition triple_kept :: "'v insert_t \<Rightarrow> string \<Rightarrow> 'v DB \<Rightarrow> bool" where
  "triple_kept sf q d =
     (case batchInserts d q of None \<Rightarrow> True | Some ins \<Rightarrow> parts ins = parts sf)"

text \<open>
  No \<open>FlushAll\<close> of the run returns an error. (A failed \<open>FlushAll\<close> is the one operation
  that empties the registry.)
\<close>

fun no_failed_FlushAll :: "'v driver \<Rightarrow> 'v DB \<Rightarrow> 'v op list \<Rightarrow> bool" where
  "no_failed_FlushAll env d [] = True"
| "no_failed_FlushAll env d (x # xs) =
     (case step env d x of
        None \<Rightarrow> True
      | Some (d1, err) \<Rightarrow>
          (case x of OpFlushAll ks \<Rightarrow> err = None | OpFlush k \<Rightarrow> True
                   | OpBatchInsert query params \<Rightarrow> True) \<and>
          no_failed_FlushAll env d1 xs)"

fun is_BatchInsert :: "'v op \<Rightarrow> bool" where
  "is_BatchInsert (OpBatchInsert query params) = True"
| "is_BatchInsert (OpFlush k) = False"
| "is_BatchInsert (OpFlushAll ks) = False"

text \<open>
  What a template must satisfy for \<open>splitQuery\<close> to return: the keyword is found; the
  last conflict clause, when there is one, starts after the byte that follows the six
  bytes of the keyword; when there is none, a closing parenthesis stands at or after the
  end of the keyword.
\<close>

definition split_precondition :: "string \<Rightarrow> bool" where
  "split_precondition query =
     (ndxValues query \<noteq> -1 \<and>
      (if ndxOnDupe query \<noteq> -1
       then ndxValues query + 6 < ndxOnDupe query
       else CHR '')'' \<in> set (drop (nat (ndxValues query + 6)) query)))"

text \<open>Drivers for the examples: one that never fails and three that fail in one place.\<close>

definition ok_driver :: "'v driver" where
  "ok_driver =
     \<lparr>sql_Open = (\<lambda>drv dsn. None), Ping = (\<lambda>dbh. None),
      Prepare = (\<lambda>h dbh q. None), Exec = (\<lambda>h st ps. None)\<rparr>"

definition unreachable_driver :: "'v driver" where
  "unreachable_driver =
     \<lparr>sql_Open = (\<lambda>drv dsn. None), Ping = (\<lambda>dbh. Some (Error ''connection refused'')),
      Prepare = (\<lambda>h dbh q. Some (Error ''connection refused'')),
      Exec = (\<lambda>h st ps. Some (Error ''connection refused''))\<rparr>"

definition no_prepare_driver :: "'v driver" where
  "no_prepare_driver =
     \<lparr>sql_Open = (\<lambda>drv dsn. None), Ping = (\<lambda>dbh. None),
      Prepare = (\<lambda>h dbh q. Some (Error ''syntax error'')), Exec = (\<lambda>h st ps. None)\<rparr>"



text \<open>
  States for the examples. \<open>pending_db\<close> is the connection opened with threshold 3 after
  \<open>BatchInsert("INSERT INTO t (a,b) VALUES (?,?)", 1, 2)\<close> and
  \<open>BatchInsert("INSERT INTO u (c) VALUES (?)", 9)\<close>: one row is pending for each template.
\<close>

definition pending_ab :: "int insert_t" where
  "pending_ab =
     \<lparr>bindParams = [1, 2], insertCtr = 1, queryPart1 = ''INSERT INTO t (a,b)'',
      queryPart2 = '' (?,?),'', queryPart3 = [], values_str = '' VALUES (?,?),''\<rparr>"

definition pending_c :: "int insert_t" where
  "pending_c =
     \<lparr>bindParams = [9], insertCtr = 1, queryPart1 = ''INSERT INTO u (c)'',
      queryPart2 = '' (?),'', queryPart3 = [], values_str = '' VALUES (?),''\<rparr>"

definition pending_db :: "int DB" where
  "pending_db =
     \<lparr>sqlDB = SqlDB ''mysql'' ''db'', PreparedStatements = Map.empty, prepstmts = Map.empty,
      driverName = ''mysql'', flushInterval = 3,
      batchInserts = [''INSERT INTO t (a,b) VALUES (?,?)'' \<mapsto> pending_ab,
                      ''INSERT INTO u (c) VALUES (?)'' \<mapsto> pending_c],
      trace = [],
      splitCalls = [''INSERT INTO t (a,b) VALUES (?,?)'', ''INSERT INTO u (c) VALUES (?)'']\<rparr>"

text \<open>
  \<open>drained_db\<close> is the connection opened with threshold 1 after
  \<open>BatchInsert("INSERT INTO t (a,b) VALUES (?,?)", 1, 2)\<close> on a driver that never fails:
  the row has been flushed and the batch of the template holds no row.
\<close>

definition drained_db :: "int DB" where
  "drained_db =
     \<lparr>sqlDB = SqlDB ''mysql'' ''db'', PreparedStatements = Map.empty,
      prepstmts = [''INSERT INTO t (a,b) VALUES (?,?)'' \<mapsto>
                     Stmt ''INSERT INTO t (a,b) VALUES (?,?)''],
      driverName = ''mysql'', flushInterval = 1,
      batchInserts = [''INSERT INTO t (a,b) VALUES (?,?)'' \<mapsto>
        \<lparr>bindParams = [], insertCtr = 0, queryPart1 = ''INSERT INTO t (a,b)'',
         queryPart2 = '' (?,?),'', queryPart3 = [], values_str = '' VALUES''\<rparr>],
      trace = [PrepareCall ''INSERT INTO t (a,b) VALUES (?,?)'',
               ExecCall (Stmt ''INSERT INTO t (a,b) VALUES (?,?)'') [1, 2]],
      splitCalls = [''INSERT INTO t (a,b) VALUES (?,?)'']\<rparr>"

text \<open>A driver name that \<open>sql.Open\<close> does not know.\<close>

definition unknown_driver :: "'v driver" where
  "unknown_driver =
     \<lparr>sql_Open = (\<lambda>drv dsn. Some (Error ''sql: unknown driver'')), Ping = (\<lambda>dbh. None),
      Prepare = (\<lambda>h dbh q. None), Exec = (\<lambda>h st ps. None)\<rparr>"

section \<open>Properties\<close>

subsection \<open>One flush\<close>


lemma slice_butlast:
  "slice s 0 (int (length s) - 1) = (if s = [] then None else Some (butlast s))"
  by (auto simp add: slice_def butlast_conv_take nat_diff_distrib')

lemma flushInsert_eq:
  "flushInsert env d ins =
     (if values_str ins = [] then None else Some (flushQuery env d ins (materialized ins)))"
  by (simp add: flushInsert_def slice_butlast materialized_def)

lemma flushQuery_prepare_fails:
  assumes "prepstmts d q = None" and "Prepare env (trace d) (sqlDB d) q = Some e"
  shows "flushQuery env d ins q = (d\<lparr>trace := trace d @ [PrepareCall q]\<rparr>, ins, Some e)"
  using assms by (simp add: flushQuery_def)

lemma flushQuery_error_keeps:
  assumes "flushQuery env d ins q = (d', ins', Some e)"
  shows "ins' = ins" and "batchInserts d' = batchInserts d"
  using assms by (auto simp add: flushQuery_def split: option.splits)


lemma flushQuery_success:
  assumes "flushQuery env d ins q = (d', ins', None)"
  shows "ins' = ins\<lparr>values_str := '' VALUES'', bindParams := [], insertCtr := 0\<rparr>"
    and "batchInserts d' = batchInserts d"
    and "\<exists>st. prepstmts d' q = Some st \<and>
           trace d' = trace d @ (if prepstmts d q = None then [PrepareCall q] else [])
                        @ [ExecCall st (bindParams ins)]"
  using assms by (auto simp add: flushQuery_def split: option.splits)

lemma flushQuery_frame:
  assumes "flushQuery env d ins q = (d', ins', r)"
  shows "batchInserts d' = batchInserts d" and "splitCalls d' = splitCalls d"
    and "flushInterval d' = flushInterval d" and "sqlDB d' = sqlDB d"
    and "PreparedStatements d' = PreparedStatements d"
    and "queryPart1 ins' = queryPart1 ins" and "queryPart2 ins' = queryPart2 ins"
    and "queryPart3 ins' = queryPart3 ins"
  using assms by (auto simp add: flushQuery_def split: option.splits)

lemma flushQuery_cache:
  assumes "flushQuery env d ins q = (d', ins', r)"
  shows "prepstmts d' = prepstmts d \<or>
         (prepstmts d q = None \<and> Prepare env (trace d) (sqlDB d) q = None \<and>
          prepstmts d' = (prepstmts d)(q \<mapsto> Stmt q))"
  using assms by (auto simp add: flushQuery_def split: option.splits)

lemma flushQuery_cache_mono:
  assumes "flushQuery env d ins q = (d', ins', r)"
  shows "prepstmts d \<subseteq>\<^sub>m prepstmts d'"
  using flushQuery_cache [OF assms] by (auto simp add: map_le_def)


subsection \<open>The invariant of the registry\<close>

lemma flushInsert_drained_ok:
  assumes "flushInsert env d ins = Some (d', ins', r)" and "drained_ok ins"
  shows "drained_ok ins'"
proof (cases r)
  case None
  with assms(1) have "flushQuery env d ins (materialized ins) = (d', ins', None)"
    by (simp add: flushInsert_eq split: if_splits)
  from flushQuery_success(1) [OF this] show ?thesis by (simp add: drained_ok_def)
next
  case (Some e)
  with assms(1) have "flushQuery env d ins (materialized ins) = (d', ins', Some e)"
    by (simp add: flushInsert_eq split: if_splits)
  from flushQuery_error_keeps(1) [OF this] assms(2) show ?thesis by simp
qed

lemma flushInsert_frame:
  assumes "flushInsert env d ins = Some (d', ins', r)"
  shows "batchInserts d' = batchInserts d" and "splitCalls d' = splitCalls d"
    and "flushInterval d' = flushInterval d" and "sqlDB d' = sqlDB d"
    and "PreparedStatements d' = PreparedStatements d"
    and "queryPart1 ins' = queryPart1 ins" and "queryPart2 ins' = queryPart2 ins"
    and "queryPart3 ins' = queryPart3 ins"
    and "prepstmts d \<subseteq>\<^sub>m prepstmts d'"
proof -
  from assms have fq: "flushQuery env d ins (materialized ins) = (d', ins', r)"
    by (simp add: flushInsert_eq split: if_splits)
  from flushQuery_frame [OF fq] flushQuery_cache_mono [OF fq]
  show "batchInserts d' = batchInserts d" and "splitCalls d' = splitCalls d"
    and "flushInterval d' = flushInterval d" and "sqlDB d' = sqlDB d"
    and "PreparedStatements d' = PreparedStatements d"
    and "queryPart1 ins' = queryPart1 ins" and "queryPart2 ins' = queryPart2 ins"
    and "queryPart3 ins' = queryPart3 ins"
    and "prepstmts d \<subseteq>\<^sub>m prepstmts d'"
    by simp_all
qed

lemma Flush_registry_ok:
  assumes "Flush env d k = Some (d', r)" and "registry_ok d"
  shows "registry_ok d'"
proof (cases "batchInserts d k")
  case None
  with assms show ?thesis by (simp add: Flush_def)
next
  case (Some ins)
  with assms(1) obtain d1 ins1 where
    f: "flushInsert env d ins = Some (d1, ins1, r)"
    and d': "d' = d1\<lparr>batchInserts := (batchInserts d1)(k \<mapsto> ins1)\<rparr>"
    by (auto simp add: Flush_def split: option.splits)
  from Some assms(2) have "drained_ok ins" by (simp add: registry_ok_def)
  with f have "drained_ok ins1" by (rule flushInsert_drained_ok)
  moreover from f have "batchInserts d1 = batchInserts d" by (rule flushInsert_frame)
  ultimately show ?thesis using assms(2) by (simp add: d' registry_ok_def)
qed

lemma BatchInsert_Some:
  assumes "BatchInsert env d query params = Some (d', r)"
  defines "ins0 \<equiv> (case batchInserts d query of None \<Rightarrow> newInsert | Some i \<Rightarrow> i)"
  defines "d1 \<equiv> (if queryPart1 ins0 = [] then d\<lparr>splitCalls := splitCalls d @ [query]\<rparr> else d)"
  shows "\<exists>ins1. (if queryPart1 ins0 = [] then splitQuery ins0 query else Some ins0) = Some ins1 \<and>
           (if flushInterval d \<le> insertCtr (add_row ins1 params)
            then (\<exists>d2 ins3. flushInsert env d1 (add_row ins1 params) = Some (d2, ins3, r) \<and>
                    d' = d2\<lparr>batchInserts := (batchInserts d2)(query \<mapsto> ins3)\<rparr>)
            else r = None \<and>
                 d' = d1\<lparr>batchInserts := (batchInserts d)(query \<mapsto> add_row ins1 params)\<rparr>)"
proof (cases "if queryPart1 ins0 = [] then splitQuery ins0 query else Some ins0")
  case None
  with assms(1) show ?thesis
    unfolding BatchInsert_def Let_def ins0_def [symmetric] by simp
next
  case (Some ins1)
  have fi: "flushInterval d1 = flushInterval d" and bi: "batchInserts d1 = batchInserts d"
    by (simp_all add: d1_def)
  from assms(1) Some have
    "(if flushInterval d \<le> insertCtr (add_row ins1 params)
      then (case flushInsert env d1 (add_row ins1 params) of
              None \<Rightarrow> None
            | Some (d2, ins3, err) \<Rightarrow>
                Some (d2\<lparr>batchInserts := (batchInserts d2)(query \<mapsto> ins3)\<rparr>, err))
      else Some (d1\<lparr>batchInserts := (batchInserts d)(query \<mapsto> add_row ins1 params)\<rparr>, None))
     = Some (d', r)"
    unfolding BatchInsert_def Let_def ins0_def [symmetric] d1_def [symmetric] add_row_def fi bi
    by simp
  then have
    "(if flushInterval d \<le> insertCtr (add_row ins1 params)
            then (\<exists>d2 ins3. flushInsert env d1 (add_row ins1 params) = Some (d2, ins3, r) \<and>
                    d' = d2\<lparr>batchInserts := (batchInserts d2)(query \<mapsto> ins3)\<rparr>)
            else r = None \<and>
                 d' = d1\<lparr>batchInserts := (batchInserts d)(query \<mapsto> add_row ins1 params)\<rparr>)"
    by (auto split: if_splits option.splits)
  with Some show ?thesis by blast
qed

lemma BatchInsert_registry_ok:
  assumes "BatchInsert env d query params = Some (d', r)" and "registry_ok d"
  shows "registry_ok d'"
proof -
  define ins0 where "ins0 = (case batchInserts d query of None \<Rightarrow> newInsert | Some i \<Rightarrow> i)"
  define d1 where
    "d1 = (if queryPart1 ins0 = [] then d\<lparr>splitCalls := splitCalls d @ [query]\<rparr> else d)"
  from BatchInsert_Some [OF assms(1)] obtain ins1 where
    c: "if flushInterval d \<le> insertCtr (add_row ins1 params)
        then (\<exists>d2 ins3. flushInsert env d1 (add_row ins1 params) = Some (d2, ins3, r) \<and>
                d' = d2\<lparr>batchInserts := (batchInserts d2)(query \<mapsto> ins3)\<rparr>)
        else r = None \<and>
             d' = d1\<lparr>batchInserts := (batchInserts d)(query \<mapsto> add_row ins1 params)\<rparr>"
    unfolding ins0_def d1_def by blast
  have ok2: "drained_ok (add_row ins1 params)" by (simp add: add_row_def drained_ok_def)
  have reg1: "batchInserts d1 = batchInserts d" by (simp add: d1_def)
  show ?thesis
  proof (cases "flushInterval d \<le> insertCtr (add_row ins1 params)")
    case True
    with c obtain d2 ins3 where
      f: "flushInsert env d1 (add_row ins1 params) = Some (d2, ins3, r)"
      and d': "d' = d2\<lparr>batchInserts := (batchInserts d2)(query \<mapsto> ins3)\<rparr>"
      by auto
    from f ok2 have "drained_ok ins3" by (rule flushInsert_drained_ok)
    moreover from f have "batchInserts d2 = batchInserts d1" by (rule flushInsert_frame)
    ultimately show ?thesis using assms(2) reg1 by (simp add: d' registry_ok_def)
  next
    case False
    with c have "d' = d1\<lparr>batchInserts := (batchInserts d)(query \<mapsto> add_row ins1 params)\<rparr>"
      by simp
    with ok2 assms(2) show ?thesis by (simp add: registry_ok_def)
  qed
qed

lemma FlushAll_registry_ok:
  "FlushAll env d ks = Some (d', r) \<Longrightarrow> registry_ok d \<Longrightarrow> registry_ok d'"
proof (induction ks arbitrary: d)
  case Nil
  then show ?case by simp
next
  case (Cons k ks)
  show ?case
  proof (cases "batchInserts d k")
    case None
    with Cons show ?thesis by simp
  next
    case (Some ins)
    with Cons.prems(1) obtain d1 ins1 r1 where
      f: "flushInsert env d ins = Some (d1, ins1, r1)"
      by (auto split: option.splits)
    from Some Cons.prems(2) have "drained_ok ins" by (simp add: registry_ok_def)
    with f have ok1: "drained_ok ins1" by (rule flushInsert_drained_ok)
    from f have reg: "batchInserts d1 = batchInserts d" by (rule flushInsert_frame)
    show ?thesis
    proof (cases r1)
      case None
      with Cons.prems(1) Some f have
        "FlushAll env (d1\<lparr>batchInserts := (batchInserts d1)(k \<mapsto> ins1)\<rparr>) ks = Some (d', r)"
        by simp
      moreover have "registry_ok (d1\<lparr>batchInserts := (batchInserts d1)(k \<mapsto> ins1)\<rparr>)"
        using ok1 reg Cons.prems(2) by (simp add: registry_ok_def)
      ultimately show ?thesis by (rule Cons.IH)
    next
      case (Some e)
      with Cons.prems(1) \<open>batchInserts d k = Some ins\<close> f
      have "d' = d1\<lparr>batchInserts := Map.empty\<rparr>" by simp
      then show ?thesis by (simp add: registry_ok_def)
    qed
  qed
qed

lemma step_registry_ok:
  "step env d x = Some (d', r) \<Longrightarrow> registry_ok d \<Longrightarrow> registry_ok d'"
  by (cases x) (auto intro: BatchInsert_registry_ok Flush_registry_ok FlushAll_registry_ok)

lemma run_registry_ok:
  "run env d xs = Some d' \<Longrightarrow> registry_ok d \<Longrightarrow> registry_ok d'"
proof (induction xs arbitrary: d)
  case Nil
  then show ?case by simp
next
  case (Cons x xs)
  from Cons.prems(1) obtain d1 r where s: "step env d x = Some (d1, r)"
    and r: "run env d1 xs = Some d'"
    by (auto split: option.splits)
  from s Cons.prems(2) have "registry_ok d1" by (rule step_registry_ok)
  with r show ?case by (rule Cons.IH)
qed

lemma Open_registry:
  assumes "Open env drv dsn n = Inr d"
  shows "batchInserts d = Map.empty" and "prepstmts d = Map.empty"
    and "PreparedStatements d = Map.empty" and "trace d = []" and "splitCalls d = []"
    and "flushInterval d = n" and "driverName d = drv" and "sqlDB d = SqlDB drv dsn"
  using assms by (auto simp add: Open_def split: option.splits)

subsection \<open>Evaluation of the templates of the examples\<close>

lemma ndx_example_ab:
  "ndxValues ''INSERT INTO t (a,b) VALUES (?,?)'' = 20"
  "ndxOnDupe ''INSERT INTO t (a,b) VALUES (?,?)'' = -1"
  "ndxParens ''INSERT INTO t (a,b) VALUES (?,?)'' = 31"
  by code_simp+

lemma TrimSpace_example_ab: "TrimSpace ''INSERT INTO t (a,b) '' = ''INSERT INTO t (a,b)''"
  by code_simp

lemma splitQuery_example_ab:
  "splitQuery ins ''INSERT INTO t (a,b) VALUES (?,?)'' =
     Some (ins\<lparr>queryPart1 := ''INSERT INTO t (a,b)'', queryPart2 := '' (?,?),''\<rparr>)"
  by (simp add: splitQuery_def ndx_example_ab slice_def TrimSpace_example_ab)

lemma Open_ok_driver:
  "Open ok_driver drv dsn n =
     Inr \<lparr>sqlDB = SqlDB drv dsn, PreparedStatements = Map.empty, prepstmts = Map.empty,
          driverName = drv, flushInterval = n, batchInserts = Map.empty, trace = [],
          splitCalls = []\<rparr>"
  by (simp add: Open_def ok_driver_def)

lemma one_row_threshold_1:
  "BatchInsert ok_driver
     \<lparr>sqlDB = dbh, PreparedStatements = Map.empty, prepstmts = Map.empty,
      driverName = drv, flushInterval = 1, batchInserts = Map.empty, trace = [],
      splitCalls = []\<rparr>
     ''INSERT INTO t (a,b) VALUES (?,?)'' [a, b] =
   Some (\<lparr>sqlDB = dbh, PreparedStatements = Map.empty,
          prepstmts = [''INSERT INTO t (a,b) VALUES (?,?)'' \<mapsto>
                         Stmt ''INSERT INTO t (a,b) VALUES (?,?)''],
          driverName = drv, flushInterval = 1,
          batchInserts = [''INSERT INTO t (a,b) VALUES (?,?)'' \<mapsto>
            \<lparr>bindParams = [], insertCtr = 0, queryPart1 = ''INSERT INTO t (a,b)'',
             queryPart2 = '' (?,?),'', queryPart3 = [], values_str = '' VALUES''\<rparr>],
          trace = [PrepareCall ''INSERT INTO t (a,b) VALUES (?,?)'',
                   ExecCall (Stmt ''INSERT INTO t (a,b) VALUES (?,?)'') [a, b]],
          splitCalls = [''INSERT INTO t (a,b) VALUES (?,?)'']\<rparr>, None)"
  by (simp add: BatchInsert_def newInsert_def splitQuery_example_ab flushInsert_def
      flushQuery_def slice_def ok_driver_def Let_def)


subsection \<open>The cache of prepared statements only grows\<close>

lemma flushInsert_Some:
  "flushInsert env d ins = Some x \<longleftrightarrow>
     values_str ins \<noteq> [] \<and> x = flushQuery env d ins (materialized ins)"
  by (auto simp add: flushInsert_eq)

lemma BatchInsert_cache_mono:
  assumes "BatchInsert env d query params = Some (d', r)"
  shows "prepstmts d \<subseteq>\<^sub>m prepstmts d'"
proof -
  define ins0 where "ins0 = (case batchInserts d query of None \<Rightarrow> newInsert | Some i \<Rightarrow> i)"
  define d1 where
    "d1 = (if queryPart1 ins0 = [] then d\<lparr>splitCalls := splitCalls d @ [query]\<rparr> else d)"
  have p1: "prepstmts d1 = prepstmts d" by (simp add: d1_def)
  from BatchInsert_Some [OF assms] obtain ins1 where
    c: "if flushInterval d \<le> insertCtr (add_row ins1 params)
        then (\<exists>d2 ins3. flushInsert env d1 (add_row ins1 params) = Some (d2, ins3, r) \<and>
                d' = d2\<lparr>batchInserts := (batchInserts d2)(query \<mapsto> ins3)\<rparr>)
        else r = None \<and>
             d' = d1\<lparr>batchInserts := (batchInserts d)(query \<mapsto> add_row ins1 params)\<rparr>"
    unfolding ins0_def d1_def by blast
  show ?thesis
  proof (cases "flushInterval d \<le> insertCtr (add_row ins1 params)")
    case True
    with c obtain d2 ins3 where
      f: "flushInsert env d1 (add_row ins1 params) = Some (d2, ins3, r)"
      and d': "d' = d2\<lparr>batchInserts := (batchInserts d2)(query \<mapsto> ins3)\<rparr>"
      by auto
    from flushInsert_frame(9) [OF f] p1 show ?thesis by (simp add: d')
  next
    case False
    with c p1 show ?thesis by simp
  qed
qed

lemma Flush_cache_mono:
  assumes "Flush env d k = Some (d', r)"
  shows "prepstmts d \<subseteq>\<^sub>m prepstmts d'"
proof (cases "batchInserts d k")
  case None
  with assms show ?thesis by (simp add: Flush_def)
next
  case (Some ins)
  with assms obtain d1 ins1 where
    f: "flushInsert env d ins = Some (d1, ins1, r)"
    and d': "d' = d1\<lparr>batchInserts := (batchInserts d1)(k \<mapsto> ins1)\<rparr>"
    by (auto simp add: Flush_def split: option.splits)
  from flushInsert_frame(9) [OF f] show ?thesis by (simp add: d')
qed

lemma FlushAll_cache_mono:
  "FlushAll env d ks = Some (d', r) \<Longrightarrow> prepstmts d \<subseteq>\<^sub>m prepstmts d'"
proof (induction ks arbitrary: d)
  case Nil
  then show ?case by simp
next
  case (Cons k ks)
  show ?case
  proof (cases "batchInserts d k")
    case None
    with Cons show ?thesis by simp
  next
    case (Some ins)
    with Cons.prems obtain d1 ins1 r1 where
      f: "flushInsert env d ins = Some (d1, ins1, r1)"
      by (auto split: option.splits)
    have m1: "prepstmts d \<subseteq>\<^sub>m prepstmts d1" by (rule flushInsert_frame(9) [OF f])
    show ?thesis
    proof (cases r1)
      case None
      with Cons.prems Some f have
        "FlushAll env (d1\<lparr>batchInserts := (batchInserts d1)(k \<mapsto> ins1)\<rparr>) ks = Some (d', r)"
        by simp
      from Cons.IH [OF this] have "prepstmts d1 \<subseteq>\<^sub>m prepstmts d'" by simp
      with m1 show ?thesis by (rule map_le_trans)
    next
      case (Some e)
      with Cons.prems \<open>batchInserts d k = Some ins\<close> f
      have "d' = d1\<lparr>batchInserts := Map.empty\<rparr>" by simp
      with m1 show ?thesis by simp
    qed
  qed
qed

lemma step_cache_mono:
  "step env d x = Some (d', r) \<Longrightarrow> prepstmts d \<subseteq>\<^sub>m prepstmts d'"
  by (cases x) (auto intro: BatchInsert_cache_mono Flush_cache_mono FlushAll_cache_mono)

subsection \<open>The loop of FlushAll\<close>

lemma FlushAll_append:
  "FlushAll env d (ks1 @ ks2) =
     (case FlushAll env d ks1 of
        None \<Rightarrow> None
      | Some (dm, Some e) \<Rightarrow> Some (dm, Some e)
      | Some (dm, None) \<Rightarrow> FlushAll env dm ks2)"
proof (induction ks1 arbitrary: d)
  case Nil
  show ?case by simp
next
  case (Cons k ks1)
  show ?case
  proof (cases "batchInserts d k")
    case None
    then show ?thesis by (simp add: Cons.IH)
  next
    case (Some ins)
    then show ?thesis
      by (simp add: Cons.IH split: option.splits prod.splits)
  qed
qed

lemma FlushAll_error_decomp:
  "FlushAll env d ks = Some (d', Some e) \<Longrightarrow>
     \<exists>ks1 k ks2 dm ins d1 ins1.
        ks = ks1 @ k # ks2 \<and> FlushAll env d ks1 = Some (dm, None) \<and>
        batchInserts dm k = Some ins \<and>
        flushInsert env dm ins = Some (d1, ins1, Some e) \<and>
        d' = d1\<lparr>batchInserts := Map.empty\<rparr>"
proof (induction ks arbitrary: d)
  case Nil
  then show ?case by simp
next
  case (Cons k ks)
  show ?case
  proof (cases "batchInserts d k")
    case None
    with Cons.prems have "FlushAll env d ks = Some (d', Some e)" by simp
    from Cons.IH [OF this] obtain ks1 k' ks2 dm ins d1 ins1 where
      h: "ks = ks1 @ k' # ks2" "FlushAll env d ks1 = Some (dm, None)"
        "batchInserts dm k' = Some ins" "flushInsert env dm ins = Some (d1, ins1, Some e)"
        "d' = d1\<lparr>batchInserts := Map.empty\<rparr>"
      by blast
    from h(1) have "k # ks = (k # ks1) @ k' # ks2" by simp
    moreover from h(2) None have "FlushAll env d (k # ks1) = Some (dm, None)" by simp
    ultimately show ?thesis using h(3,4,5) by blast
  next
    case (Some ins)
    with Cons.prems obtain d1 ins1 r1 where
      f: "flushInsert env d ins = Some (d1, ins1, r1)"
      by (auto split: option.splits)
    show ?thesis
    proof (cases r1)
      case None
      let ?dn = "d1\<lparr>batchInserts := (batchInserts d1)(k \<mapsto> ins1)\<rparr>"
      from None Cons.prems Some f have "FlushAll env ?dn ks = Some (d', Some e)" by simp
      from Cons.IH [OF this] obtain ks1 k' ks2 dm ins' d1' ins1' where
        h: "ks = ks1 @ k' # ks2" "FlushAll env ?dn ks1 = Some (dm, None)"
          "batchInserts dm k' = Some ins'" "flushInsert env dm ins' = Some (d1', ins1', Some e)"
          "d' = d1'\<lparr>batchInserts := Map.empty\<rparr>"
        by blast
      from h(1) have "k # ks = (k # ks1) @ k' # ks2" by simp
      moreover from h(2) None Some f have "FlushAll env d (k # ks1) = Some (dm, None)" by simp
      ultimately show ?thesis using h(3,4,5) by blast
    next
      case (Some e')
      with Cons.prems \<open>batchInserts d k = Some ins\<close> f
      have "e' = e" and "d' = d1\<lparr>batchInserts := Map.empty\<rparr>" by simp_all
      moreover have "k # ks = [] @ k # ks" by simp
      moreover have "FlushAll env d [] = Some (d, None)" by simp
      ultimately show ?thesis using \<open>batchInserts d k = Some ins\<close> f Some by blast
    qed
  qed
qed

lemma FlushAll_all_ok:
  "(\<And>ks1 k ks2 dm ins.
       ks = ks1 @ k # ks2 \<Longrightarrow> FlushAll env d ks1 = Some (dm, None) \<Longrightarrow>
       batchInserts dm k = Some ins \<Longrightarrow>
       \<exists>d1 ins1. flushInsert env dm ins = Some (d1, ins1, None)) \<Longrightarrow>
   \<exists>d'. FlushAll env d ks = Some (d', None)"
proof (induction ks arbitrary: d)
  case Nil
  show ?case by simp
next
  case (Cons k ks)
  show ?case
  proof (cases "batchInserts d k")
    case None
    have "\<exists>d'. FlushAll env d ks = Some (d', None)"
    proof (rule Cons.IH)
      fix ks1 k' ks2 dm ins
      assume a: "ks = ks1 @ k' # ks2" "FlushAll env d ks1 = Some (dm, None)"
        "batchInserts dm k' = Some ins"
      from a(1) have "k # ks = (k # ks1) @ k' # ks2" by simp
      moreover from a(2) None have "FlushAll env d (k # ks1) = Some (dm, None)" by simp
      ultimately show "\<exists>d1 ins1. flushInsert env dm ins = Some (d1, ins1, None)"
        using a(3) by (rule Cons.prems)
    qed
    with None show ?thesis by simp
  next
    case (Some ins)
    have "k # ks = [] @ k # ks" by simp
    moreover have "FlushAll env d [] = Some (d, None)" by simp
    ultimately have "\<exists>d1 ins1. flushInsert env d ins = Some (d1, ins1, None)"
      using Some by (rule Cons.prems)
    then obtain d1 ins1 where f: "flushInsert env d ins = Some (d1, ins1, None)" by blast
    let ?dn = "d1\<lparr>batchInserts := (batchInserts d1)(k \<mapsto> ins1)\<rparr>"
    have "\<exists>d'. FlushAll env ?dn ks = Some (d', None)"
    proof (rule Cons.IH)
      fix ks1 k' ks2 dm ins'
      assume a: "ks = ks1 @ k' # ks2" "FlushAll env ?dn ks1 = Some (dm, None)"
        "batchInserts dm k' = Some ins'"
      from a(1) have "k # ks = (k # ks1) @ k' # ks2" by simp
      moreover from a(2) Some f have "FlushAll env d (k # ks1) = Some (dm, None)" by simp
      ultimately show "\<exists>d1 ins1. flushInsert env dm ins' = Some (d1, ins1, None)"
        using a(3) by (rule Cons.prems)
    qed
    with Some f show ?thesis by simp
  qed
qed

subsection \<open>The example states\<close>

lemma ndx_example_c:
  "ndxValues ''INSERT INTO u (c) VALUES (?)'' = 18"
  "ndxOnDupe ''INSERT INTO u (c) VALUES (?)'' = -1"
  "ndxParens ''INSERT INTO u (c) VALUES (?)'' = 27"
  by code_simp+

lemma TrimSpace_example_c: "TrimSpace ''INSERT INTO u (c) '' = ''INSERT INTO u (c)''"
  by code_simp

lemma splitQuery_example_c:
  "splitQuery ins ''INSERT INTO u (c) VALUES (?)'' =
     Some (ins\<lparr>queryPart1 := ''INSERT INTO u (c)'', queryPart2 := '' (?),''\<rparr>)"
  by (simp add: splitQuery_def ndx_example_c slice_def TrimSpace_example_c)

lemma pending_db_reached:
  "run ok_driver
     \<lparr>sqlDB = SqlDB ''mysql'' ''db'', PreparedStatements = Map.empty, prepstmts = Map.empty,
      driverName = ''mysql'', flushInterval = 3, batchInserts = Map.empty, trace = [],
      splitCalls = []\<rparr>
     [OpBatchInsert ''INSERT INTO t (a,b) VALUES (?,?)'' [1, 2],
      OpBatchInsert ''INSERT INTO u (c) VALUES (?)'' [9]] = Some pending_db"
  by (simp add: BatchInsert_def newInsert_def splitQuery_example_ab splitQuery_example_c
      Let_def pending_db_def pending_ab_def pending_c_def)

lemma materialized_pending:
  "materialized pending_ab = ''INSERT INTO t (a,b) VALUES (?,?)''"
  "materialized pending_c = ''INSERT INTO u (c) VALUES (?)''"
  by (simp_all add: materialized_def pending_ab_def pending_c_def)

lemma pending_nonempty: "values_str pending_ab \<noteq> []" "values_str pending_c \<noteq> []"
  by (simp_all add: pending_ab_def pending_c_def)

lemma FlushAll_example_idle:
  "FlushAll ok_driver drained_db [''INSERT INTO t (a,b) VALUES (?,?)''] =
     Some (drained_db
             \<lparr>prepstmts := [''INSERT INTO t (a,b) VALUES (?,?)'' \<mapsto>
                               Stmt ''INSERT INTO t (a,b) VALUES (?,?)'',
                            ''INSERT INTO t (a,b) VALUE'' \<mapsto> Stmt ''INSERT INTO t (a,b) VALUE''],
              trace := [PrepareCall ''INSERT INTO t (a,b) VALUES (?,?)'',
                        ExecCall (Stmt ''INSERT INTO t (a,b) VALUES (?,?)'') [1, 2],
                        PrepareCall ''INSERT INTO t (a,b) VALUE'',
                        ExecCall (Stmt ''INSERT INTO t (a,b) VALUE'') []]\<rparr>, None)"
  by (simp add: drained_db_def flushInsert_def slice_def flushQuery_def ok_driver_def)

subsection \<open>The example runs of the two templates\<close>

lemma Open_Inr:
  assumes "Open env drv dsn n = Inr d0"
  shows "d0 = \<lparr>sqlDB = SqlDB drv dsn, PreparedStatements = Map.empty, prepstmts = Map.empty,
      driverName = drv, flushInterval = n, batchInserts = Map.empty, trace = [],
      splitCalls = []\<rparr>"
  using assms by (simp add: Open_def split: option.splits)

lemma three_rows_threshold_3:
  fixes env :: "int driver"
  assumes "Open env drv dsn 3 = Inr d0"
  shows "map_option trace (run env d0 [OpBatchInsert ''INSERT INTO t (a,b) VALUES (?,?)'' [1, 2]]) = Some [] \<and>
    map_option trace (run env d0 [OpBatchInsert ''INSERT INTO t (a,b) VALUES (?,?)'' [1, 2],
       OpBatchInsert ''INSERT INTO t (a,b) VALUES (?,?)'' [3, 4]]) = Some [] \<and>
    map_option trace (run env d0 [OpBatchInsert ''INSERT INTO t (a,b) VALUES (?,?)'' [1, 2],
       OpBatchInsert ''INSERT INTO t (a,b) VALUES (?,?)'' [3, 4],
       OpBatchInsert ''INSERT INTO t (a,b) VALUES (?,?)'' [5, 6]]) =
      Some (PrepareCall ''INSERT INTO t (a,b) VALUES (?,?), (?,?), (?,?)'' #
            (if Prepare env [] (sqlDB d0) ''INSERT INTO t (a,b) VALUES (?,?), (?,?), (?,?)'' = None
             then [ExecCall (Stmt ''INSERT INTO t (a,b) VALUES (?,?), (?,?), (?,?)'') [1, 2, 3, 4, 5, 6]]
             else [])) \<and>
    (Prepare env [] (sqlDB d0) ''INSERT INTO t (a,b) VALUES (?,?), (?,?), (?,?)'' = None \<and>
     Exec env [PrepareCall ''INSERT INTO t (a,b) VALUES (?,?), (?,?), (?,?)'']
       (Stmt ''INSERT INTO t (a,b) VALUES (?,?), (?,?), (?,?)'') [1, 2, 3, 4, 5, 6] = None \<longrightarrow>
     map_option (\<lambda>d. map_option insertCtr (batchInserts d ''INSERT INTO t (a,b) VALUES (?,?)''))
       (run env d0 [OpBatchInsert ''INSERT INTO t (a,b) VALUES (?,?)'' [1, 2],
          OpBatchInsert ''INSERT INTO t (a,b) VALUES (?,?)'' [3, 4],
          OpBatchInsert ''INSERT INTO t (a,b) VALUES (?,?)'' [5, 6]]) = Some (Some 0))"
proof -
  let ?q = "''INSERT INTO t (a,b) VALUES (?,?)''"
  let ?t = "''INSERT INTO t (a,b) VALUES (?,?), (?,?), (?,?)''"
  note d0 = Open_Inr [OF assms]
  define i1 :: "int insert_t" where
    "i1 = \<lparr>bindParams = [1, 2], insertCtr = 1, queryPart1 = ''INSERT INTO t (a,b)'',
       queryPart2 = '' (?,?),'', queryPart3 = [], values_str = '' VALUES (?,?),''\<rparr>"
  define d1 where "d1 = d0\<lparr>batchInserts := [?q \<mapsto> i1], splitCalls := [?q]\<rparr>"
  have s1: "BatchInsert env d0 ?q [1, 2] = Some (d1, None)"
    by (simp add: d0 d1_def i1_def BatchInsert_def newInsert_def splitQuery_example_ab Let_def)
  define i2 :: "int insert_t" where
    "i2 = \<lparr>bindParams = [1, 2, 3, 4], insertCtr = 2, queryPart1 = ''INSERT INTO t (a,b)'',
       queryPart2 = '' (?,?),'', queryPart3 = [], values_str = '' VALUES (?,?), (?,?),''\<rparr>"
  define d2 where "d2 = d0\<lparr>batchInserts := [?q \<mapsto> i2], splitCalls := [?q]\<rparr>"
  have s2: "BatchInsert env d1 ?q [3, 4] = Some (d2, None)"
    by (simp add: d0 d1_def d2_def i1_def i2_def BatchInsert_def Let_def numeral_2_eq_2)
  have r1: "map_option trace (run env d0 [OpBatchInsert ?q [1, 2]]) = Some []"
    by (simp add: s1) (simp add: d1_def d0)
  have r2: "map_option trace (run env d0 [OpBatchInsert ?q [1, 2], OpBatchInsert ?q [3, 4]]) = Some []"
    by (simp add: s1 s2) (simp add: d2_def d0)
  have r3: "map_option trace (run env d0 [OpBatchInsert ?q [1, 2], OpBatchInsert ?q [3, 4],
       OpBatchInsert ?q [5, 6]]) =
      Some (PrepareCall ?t #
            (if Prepare env [] (sqlDB d0) ?t = None
             then [ExecCall (Stmt ?t) [1, 2, 3, 4, 5, 6]] else []))"
  proof (cases "Prepare env [] (SqlDB drv dsn) ?t")
    case None
    then show ?thesis
      by (simp add: s1 s2)
        (simp add: d2_def d0 i2_def BatchInsert_def flushInsert_def flushQuery_def slice_def
          Let_def split: option.splits)
  next
    case (Some e)
    then show ?thesis
      by (simp add: s1 s2)
        (simp add: d2_def d0 i2_def BatchInsert_def flushInsert_def flushQuery_def slice_def Let_def)
  qed
  have r4: "map_option (\<lambda>d. map_option insertCtr (batchInserts d ?q))
       (run env d0 [OpBatchInsert ?q [1, 2], OpBatchInsert ?q [3, 4], OpBatchInsert ?q [5, 6]])
       = Some (Some 0)"
    if "Prepare env [] (sqlDB d0) ?t = None"
      and "Exec env [PrepareCall ?t] (Stmt ?t) [1, 2, 3, 4, 5, 6] = None"
    using that
    by (simp add: s1 s2)
      (simp add: d2_def d0 i2_def BatchInsert_def flushInsert_def flushQuery_def slice_def Let_def)
  from r1 r2 r3 r4 show ?thesis by blast
qed

lemma ndx_example_dupe:
  "ndxValues ''INSERT INTO t (a) VALUES (?) ON DUPLICATE KEY UPDATE a=?'' = 18"
  "ndxOnDupe ''INSERT INTO t (a) VALUES (?) ON DUPLICATE KEY UPDATE a=?'' = 29"
  "ndxParens ''INSERT INTO t (a) VALUES (?) ON DUPLICATE KEY UPDATE a=?'' = 27"
  by code_simp+

lemma TrimSpace_example_dupe: "TrimSpace ''INSERT INTO t (a) '' = ''INSERT INTO t (a)''"
  by code_simp

lemma splitQuery_example_dupe:
  "splitQuery ins ''INSERT INTO t (a) VALUES (?) ON DUPLICATE KEY UPDATE a=?'' =
     Some (ins\<lparr>queryPart1 := ''INSERT INTO t (a)'', queryPart2 := '' (?),'',
               queryPart3 := ''ON DUPLICATE KEY UPDATE a=?''\<rparr>)"
  by (simp add: splitQuery_def ndx_example_dupe slice_def TrimSpace_example_dupe)

lemma one_clause_example_dupe:
  "length (FindAllStringIndex dupeRegexp
      ''INSERT INTO t (a) VALUES (?), (?)ON DUPLICATE KEY UPDATE a=?'') = 1"
  by code_simp

lemma two_rows_threshold_2:
  assumes "Open env drv dsn 2 = Inr d0"
  shows "map_option trace
      (run env d0
         [OpBatchInsert ''INSERT INTO t (a) VALUES (?) ON DUPLICATE KEY UPDATE a=?'' [x, y]]) = Some [] \<and>
    map_option trace
      (run env d0
         [OpBatchInsert ''INSERT INTO t (a) VALUES (?) ON DUPLICATE KEY UPDATE a=?'' [x, y],
          OpBatchInsert ''INSERT INTO t (a) VALUES (?) ON DUPLICATE KEY UPDATE a=?'' [x2, y2]]) =
      Some (PrepareCall ''INSERT INTO t (a) VALUES (?), (?)ON DUPLICATE KEY UPDATE a=?'' #
            (if Prepare env [] (sqlDB d0)
                  ''INSERT INTO t (a) VALUES (?), (?)ON DUPLICATE KEY UPDATE a=?'' = None
             then [ExecCall (Stmt ''INSERT INTO t (a) VALUES (?), (?)ON DUPLICATE KEY UPDATE a=?'')
                     [x, y, x2, y2]]
             else [])) \<and>
    length (FindAllStringIndex dupeRegexp
      ''INSERT INTO t (a) VALUES (?), (?)ON DUPLICATE KEY UPDATE a=?'') = 1"
proof -
  let ?q = "''INSERT INTO t (a) VALUES (?) ON DUPLICATE KEY UPDATE a=?''"
  let ?t = "''INSERT INTO t (a) VALUES (?), (?)ON DUPLICATE KEY UPDATE a=?''"
  note d0 = Open_Inr [OF assms]
  define i1 where
    "i1 = \<lparr>bindParams = [x, y], insertCtr = 1, queryPart1 = ''INSERT INTO t (a)'',
       queryPart2 = '' (?),'', queryPart3 = ''ON DUPLICATE KEY UPDATE a=?'',
       values_str = '' VALUES (?),''\<rparr>"
  define d1 where "d1 = d0\<lparr>batchInserts := [?q \<mapsto> i1], splitCalls := [?q]\<rparr>"
  have s1: "BatchInsert env d0 ?q [x, y] = Some (d1, None)"
    by (simp add: d0 d1_def i1_def BatchInsert_def newInsert_def splitQuery_example_dupe Let_def)
  have r1: "map_option trace (run env d0 [OpBatchInsert ?q [x, y]]) = Some []"
    by (simp add: s1) (simp add: d1_def d0)
  have r2: "map_option trace (run env d0 [OpBatchInsert ?q [x, y], OpBatchInsert ?q [x2, y2]]) =
      Some (PrepareCall ?t #
            (if Prepare env [] (sqlDB d0) ?t = None
             then [ExecCall (Stmt ?t) [x, y, x2, y2]] else []))"
  proof (cases "Prepare env [] (SqlDB drv dsn) ?t")
    case None
    then show ?thesis
      by (simp add: s1)
        (simp add: d1_def d0 i1_def BatchInsert_def flushInsert_def flushQuery_def slice_def
          Let_def numeral_2_eq_2 split: option.splits)
  next
    case (Some e)
    then show ?thesis
      by (simp add: s1)
        (simp add: d1_def d0 i1_def BatchInsert_def flushInsert_def flushQuery_def slice_def
          Let_def numeral_2_eq_2)
  qed
  from r1 r2 one_clause_example_dupe show ?thesis by blast
qed

subsection \<open>The indices of splitQuery\<close>

lemma LastIndex_ge_m1: "- 1 \<le> LastIndex s c"
  by (induction s) (auto simp add: Let_def)

lemma LastIndex_lt: "LastIndex s c < int (length s)"
  by (induction s) (auto simp add: Let_def)

lemma LastIndex_ge_iff: "int k \<le> LastIndex s c \<longleftrightarrow> c \<in> set (drop k s)"
proof (induction s arbitrary: k)
  case Nil
  show ?case by simp
next
  case (Cons x xs)
  have m1: "- 1 \<le> LastIndex xs c" by (rule LastIndex_ge_m1)
  have zero: "0 \<le> LastIndex xs c \<longleftrightarrow> c \<in> set xs"
    using Cons.IH [of 0] by simp
  show ?case
  proof (cases k)
    case 0
    with zero show ?thesis by (auto simp add: Let_def)
  next
    case (Suc j)
    have "c \<in> set (drop j xs) \<Longrightarrow> c \<in> set xs" by (rule in_set_dropD)
    with Suc Cons.IH [of j] zero m1 show ?thesis
      by (auto simp add: Let_def)
  qed
qed

lemma LastIndex_nth: "0 \<le> LastIndex s c \<Longrightarrow> s ! nat (LastIndex s c) = c"
proof (induction s)
  case Nil
  then show ?case by simp
next
  case (Cons x xs)
  show ?case
  proof (cases "0 \<le> LastIndex xs c")
    case True
    with Cons.IH have "xs ! nat (LastIndex xs c) = c" by simp
    with True show ?thesis by (simp add: Let_def nat_add_distrib)
  next
    case False
    with Cons.prems show ?thesis by (auto simp add: Let_def split: if_splits)
  qed
qed

lemma lead_width_pos:
  assumes "0 < lead_width alts s"
  shows "\<exists>w \<in> set alts. length w = lead_width alts s \<and> take (length w) s = w"
proof (cases "filter (\<lambda>w. take (length w) s = w) alts")
  case Nil
  with assms show ?thesis by (simp add: lead_width_def)
next
  case (Cons w ws)
  then have "w \<in> set (filter (\<lambda>w. take (length w) s = w) alts)" by simp
  then have "w \<in> set alts" and "take (length w) s = w" by simp_all
  moreover from Cons have "lead_width alts s = length w" by (simp add: lead_width_def)
  ultimately show ?thesis by auto
qed

lemma match_here_Cons_Some:
  assumes "match_here (p # ps) s = Some m"
  shows "0 < lead_width (fold_alts p) s \<and>
         (\<exists>m'. match_here ps (drop (lead_width (fold_alts p) s) s) = Some m' \<and>
               m = lead_width (fold_alts p) s + m')"
  using assms by (auto simp add: Let_def split: if_splits option.splits)

lemma match_single:
  assumes "match_here (p # ps) s = Some m"
    and "\<forall>w \<in> set (fold_alts p). length w = 1"
  shows "\<exists>c s' m'. s = c # s' \<and> match_here ps s' = Some m'"
proof -
  from match_here_Cons_Some [OF assms(1)] obtain m' where
    pos: "0 < lead_width (fold_alts p) s"
    and rest: "match_here ps (drop (lead_width (fold_alts p) s) s) = Some m'"
    by blast
  from lead_width_pos [OF pos] obtain w where
    w: "w \<in> set (fold_alts p)" "length w = lead_width (fold_alts p) s" "take (length w) s = w"
    by blast
  from w(1) assms(2) have l1: "length w = 1" by blast
  with w(3) have "s \<noteq> []" by auto
  then obtain c s' where s: "s = c # s'" by (cases s) auto
  from w(2) l1 have "lead_width (fold_alts p) s = 1" by simp
  with rest s have "match_here ps s' = Some m'" by simp
  with s show ?thesis by blast
qed

lemma fold_alts_single:
  "\<forall>w \<in> set (fold_alts (CHR ''v'')). length w = 1"
  "\<forall>w \<in> set (fold_alts (CHR ''a'')). length w = 1"
  "\<forall>w \<in> set (fold_alts (CHR ''l'')). length w = 1"
  "\<forall>w \<in> set (fold_alts (CHR ''u'')). length w = 1"
  "\<forall>w \<in> set (fold_alts (CHR ''e'')). length w = 1"
  by (simp_all add: fold_alts_def upper_def)

lemma match_s_head:
  assumes "match_here (CHR ''s'' # ps) s = Some m"
  shows "s \<noteq> [] \<and> hd s \<noteq> CHR '')''"
proof -
  from match_here_Cons_Some [OF assms] have pos: "0 < lead_width (fold_alts (CHR ''s'')) s"
    by blast
  from lead_width_pos [OF pos] obtain w where
    w: "w \<in> set (fold_alts (CHR ''s''))" "take (length w) s = w"
    by blast
  from w(1) have "w = ''s'' \<or> w = ''S'' \<or> w = [CHR 0xC5, CHR 0xBF]"
    by (simp add: fold_alts_def)
  then have "w \<noteq> [] \<and> hd w \<noteq> CHR '')''" by auto
  moreover from this w(2) have "s \<noteq> []" by auto
  moreover from calculation w(2) have "hd s = hd w"
    by (metis hd_take length_greater_0_conv)
  ultimately show ?thesis by simp
qed

lemma match_values:
  assumes "match_here valuesRegexp s = Some m"
  shows "6 \<le> length s \<and> s ! 5 \<noteq> CHR '')''"
proof -
  from assms have m0: "match_here (CHR ''v'' # ''alues'') s = Some m"
    by (simp add: valuesRegexp_def)
  from match_single [OF m0 fold_alts_single(1)] obtain c0 s1 m1 where
    s0: "s = c0 # s1" and m1: "match_here (CHR ''a'' # ''lues'') s1 = Some m1" by auto
  from match_single [OF m1 fold_alts_single(2)] obtain c1 s2 m2 where
    s1: "s1 = c1 # s2" and m2: "match_here (CHR ''l'' # ''ues'') s2 = Some m2" by auto
  from match_single [OF m2 fold_alts_single(3)] obtain c2 s3 m3 where
    s2: "s2 = c2 # s3" and m3: "match_here (CHR ''u'' # ''es'') s3 = Some m3" by auto
  from match_single [OF m3 fold_alts_single(4)] obtain c3 s4 m4 where
    s3: "s3 = c3 # s4" and m4: "match_here (CHR ''e'' # ''s'') s4 = Some m4" by auto
  from match_single [OF m4 fold_alts_single(5)] obtain c4 s5 m5 where
    s4: "s4 = c4 # s5" and m5: "match_here (CHR ''s'' # []) s5 = Some m5" by auto
  from match_s_head [OF m5] obtain c5 s6 where s5: "s5 = c5 # s6" and c5: "c5 \<noteq> CHR '')''"
    by (cases s5) auto
  show ?thesis by (simp add: s0 s1 s2 s3 s4 s5 c5)
qed

lemma FindStringIndex_Some:
  "FindStringIndex re s = Some (a, b) \<Longrightarrow>
     a \<le> length s \<and> (\<exists>m. match_here re (drop a s) = Some m)"
proof (induction s arbitrary: a b)
  case Nil
  then show ?case by (auto split: option.splits)
next
  case (Cons c cs)
  show ?case
  proof (cases "match_here re (c # cs)")
    case (Some n)
    with Cons.prems show ?thesis by auto
  next
    case None
    with Cons.prems obtain a' b' where
      f: "FindStringIndex re cs = Some (a', b')" and a: "a = Suc a'"
      by (auto split: option.splits)
    from Cons.IH [OF f] a show ?thesis by simp
  qed
qed

lemma ndxValues_cases:
  "ndxValues q = - 1 \<or>
   (\<exists>a. ndxValues q = int a \<and> a + 6 \<le> length q \<and> q ! (a + 5) \<noteq> CHR '')'')"
proof (cases "FindStringIndex valuesRegexp q")
  case None
  then show ?thesis by (simp add: ndxValues_def)
next
  case (Some ab)
  obtain a b where ab: "ab = (a, b)" by (cases ab)
  from Some ab have f: "FindStringIndex valuesRegexp q = Some (a, b)" by simp
  from FindStringIndex_Some [OF f] obtain m where
    le: "a \<le> length q" and m: "match_here valuesRegexp (drop a q) = Some m"
    by blast
  from match_values [OF m] have "6 \<le> length (drop a q)" and "drop a q ! 5 \<noteq> CHR '')''"
    by simp_all
  then have "a + 6 \<le> length q" and "q ! (a + 5) \<noteq> CHR '')''"
    using le by simp_all
  moreover from f have "ndxValues q = int a" by (simp add: ndxValues_def)
  ultimately show ?thesis by blast
qed

lemma FindAll_from_bounds:
  "(a, b) \<in> set (FindAll_from re i k s) \<Longrightarrow> i \<le> a \<and> a < i + length s"
proof (induction s arbitrary: i k)
  case Nil
  then show ?case by simp
next
  case (Cons c cs)
  show ?case
  proof (cases "0 < k")
    case True
    with Cons.prems have "(a, b) \<in> set (FindAll_from re (Suc i) (k - 1) cs)" by simp
    from Cons.IH [OF this] show ?thesis by simp
  next
    case False
    show ?thesis
    proof (cases "match_here re (c # cs)")
      case None
      with False Cons.prems have "(a, b) \<in> set (FindAll_from re (Suc i) 0 cs)" by simp
      from Cons.IH [OF this] show ?thesis by simp
    next
      case (Some n)
      with False Cons.prems have
        "a = i \<or> (a, b) \<in> set (FindAll_from re (Suc i) (n - 1) cs)" by auto
      then show ?thesis
      proof
        assume "a = i"
        then show ?thesis by simp
      next
        assume "(a, b) \<in> set (FindAll_from re (Suc i) (n - 1) cs)"
        from Cons.IH [OF this] show ?thesis by simp
      qed
    qed
  qed
qed

lemma ndxOnDupe_cases:
  "ndxOnDupe q = - 1 \<or> (0 \<le> ndxOnDupe q \<and> ndxOnDupe q < int (length q))"
proof (cases "FindAllStringIndex dupeRegexp q")
  case Nil
  then show ?thesis by (simp add: ndxOnDupe_def)
next
  case (Cons m ms)
  obtain a b where ab: "last (m # ms) = (a, b)" by (cases "last (m # ms)")
  have "last (m # ms) \<in> set (m # ms)" by (rule last_in_set) simp
  with ab Cons have "(a, b) \<in> set (FindAll_from dupeRegexp 0 0 q)"
    by (simp add: FindAllStringIndex_def)
  from FindAll_from_bounds [OF this] have "a < length q" by simp
  moreover from Cons ab have "ndxOnDupe q = int a" by (simp add: ndxOnDupe_def)
  ultimately show ?thesis by simp
qed

lemma slice_None_iff:
  "slice s lo hi = None \<longleftrightarrow> \<not> (0 \<le> lo \<and> lo \<le> hi \<and> hi \<le> int (length s))"
  by (simp add: slice_def)

subsection \<open>One split for each template\<close>

lemma BatchInsert_effect:
  assumes "BatchInsert env d query params = Some (d', r)"
  defines "ins0 \<equiv> (case batchInserts d query of None \<Rightarrow> newInsert | Some i \<Rightarrow> i)"
  shows "\<exists>ins1 x.
           (if queryPart1 ins0 = [] then splitQuery ins0 query else Some ins0) = Some ins1 \<and>
           batchInserts d' = (batchInserts d)(query \<mapsto> x) \<and> parts x = parts ins1 \<and>
           splitCalls d' =
             (if queryPart1 ins0 = [] then splitCalls d @ [query] else splitCalls d)"
proof -
  define d1 where
    "d1 = (if queryPart1 ins0 = [] then d\<lparr>splitCalls := splitCalls d @ [query]\<rparr> else d)"
  have b1: "batchInserts d1 = batchInserts d"
    and c1: "splitCalls d1 =
      (if queryPart1 ins0 = [] then splitCalls d @ [query] else splitCalls d)"
    by (simp_all add: d1_def)
  from BatchInsert_Some [OF assms(1)] obtain ins1 where
    sp: "(if queryPart1 ins0 = [] then splitQuery ins0 query else Some ins0) = Some ins1"
    and c: "if flushInterval d \<le> insertCtr (add_row ins1 params)
        then (\<exists>d2 ins3. flushInsert env d1 (add_row ins1 params) = Some (d2, ins3, r) \<and>
                d' = d2\<lparr>batchInserts := (batchInserts d2)(query \<mapsto> ins3)\<rparr>)
        else r = None \<and>
             d' = d1\<lparr>batchInserts := (batchInserts d)(query \<mapsto> add_row ins1 params)\<rparr>"
    unfolding ins0_def d1_def by blast
  have pa: "parts (add_row ins1 params) = parts ins1"
    by (simp add: parts_def add_row_def)
  show ?thesis
  proof (cases "flushInterval d \<le> insertCtr (add_row ins1 params)")
    case True
    with c obtain d2 ins3 where
      f: "flushInsert env d1 (add_row ins1 params) = Some (d2, ins3, r)"
      and d': "d' = d2\<lparr>batchInserts := (batchInserts d2)(query \<mapsto> ins3)\<rparr>"
      by auto
    from flushInsert_frame [OF f] have
      "batchInserts d2 = batchInserts d1" "splitCalls d2 = splitCalls d1"
      "parts ins3 = parts (add_row ins1 params)"
      by (simp_all add: parts_def)
    with b1 c1 pa d' have
      "batchInserts d' = (batchInserts d)(query \<mapsto> ins3)" "parts ins3 = parts ins1"
      "splitCalls d' = (if queryPart1 ins0 = [] then splitCalls d @ [query] else splitCalls d)"
      by simp_all
    with sp show ?thesis by blast
  next
    case False
    with c have d': "d' = d1\<lparr>batchInserts := (batchInserts d)(query \<mapsto> add_row ins1 params)\<rparr>"
      by simp
    with c1 have
      "batchInserts d' = (batchInserts d)(query \<mapsto> add_row ins1 params)"
      "splitCalls d' = (if queryPart1 ins0 = [] then splitCalls d @ [query] else splitCalls d)"
      by simp_all
    with sp pa show ?thesis by blast
  qed
qed

lemma BatchInsert_split_once:
  assumes b: "BatchInsert env d query params = Some (d', r)"
    and sf: "splitQuery newInsert q = Some sf" "queryPart1 sf \<noteq> []"
    and inv: "split_once sf q d"
  shows "split_once sf q d' \<and>
         (batchInserts d' q \<noteq> None \<longleftrightarrow> batchInserts d q \<noteq> None \<or> query = q)"
proof -
  define ins0 where "ins0 = (case batchInserts d query of None \<Rightarrow> newInsert | Some i \<Rightarrow> i)"
  from BatchInsert_effect [OF b] obtain ins1 x where
    sp: "(if queryPart1 ins0 = [] then splitQuery ins0 query else Some ins0) = Some ins1"
    and reg: "batchInserts d' = (batchInserts d)(query \<mapsto> x)"
    and px: "parts x = parts ins1"
    and sc: "splitCalls d' =
      (if queryPart1 ins0 = [] then splitCalls d @ [query] else splitCalls d)"
    unfolding ins0_def by blast
  show ?thesis
  proof (cases "query = q")
    case False
    with reg have "batchInserts d' q = batchInserts d q" by simp
    moreover from sc False have "count_list (splitCalls d') q = count_list (splitCalls d) q"
      by simp
    ultimately show ?thesis using inv False
      by (auto simp add: split_once_def split: option.splits)
  next
    case True
    show ?thesis
    proof (cases "batchInserts d q")
      case None
      with True have i0: "ins0 = newInsert" by (simp add: ins0_def)
      then have "queryPart1 ins0 = []" by (simp add: newInsert_def)
      with sp sc i0 True sf(1) have "ins1 = sf" "splitCalls d' = splitCalls d @ [q]"
        by simp_all
      moreover from inv None have "count_list (splitCalls d) q = 0"
        by (simp add: split_once_def)
      ultimately show ?thesis using reg px True by (simp add: split_once_def)
    next
      case (Some ins)
      with True have i0: "ins0 = ins" by (simp add: ins0_def)
      from inv Some have c: "count_list (splitCalls d) q = 1" and p: "parts ins = parts sf"
        by (simp_all add: split_once_def)
      from p sf(2) have "queryPart1 ins \<noteq> []" by (simp add: parts_def)
      with sp sc i0 have "ins1 = ins" "splitCalls d' = splitCalls d" by simp_all
      with reg px True c p show ?thesis by (simp add: split_once_def)
    qed
  qed
qed

lemma four_rows_threshold_3:
  "run ok_driver \<lparr>sqlDB = SqlDB ''mysql'' ''db'', PreparedStatements = Map.empty,
          prepstmts = Map.empty, driverName = ''mysql'', flushInterval = 3,
          batchInserts = Map.empty, trace = [], splitCalls = []\<rparr>
     [OpBatchInsert ''INSERT INTO t (a,b) VALUES (?,?)'' [1 :: int, 2],
         OpBatchInsert ''INSERT INTO t (a,b) VALUES (?,?)'' [3, 4],
         OpBatchInsert ''INSERT INTO t (a,b) VALUES (?,?)'' [5, 6],
         OpBatchInsert ''INSERT INTO t (a,b) VALUES (?,?)'' [7, 8]] =
   Some \<lparr>sqlDB = SqlDB ''mysql'' ''db'', PreparedStatements = Map.empty,
          prepstmts = [''INSERT INTO t (a,b) VALUES (?,?), (?,?), (?,?)'' \<mapsto>
                         Stmt ''INSERT INTO t (a,b) VALUES (?,?), (?,?), (?,?)''],
          driverName = ''mysql'', flushInterval = 3,
          batchInserts = [''INSERT INTO t (a,b) VALUES (?,?)'' \<mapsto>
            \<lparr>bindParams = [7, 8], insertCtr = 1, queryPart1 = ''INSERT INTO t (a,b)'',
             queryPart2 = '' (?,?),'', queryPart3 = [], values_str = '' VALUES (?,?),''\<rparr>],
          trace = [PrepareCall ''INSERT INTO t (a,b) VALUES (?,?), (?,?), (?,?)'',
                   ExecCall (Stmt ''INSERT INTO t (a,b) VALUES (?,?), (?,?), (?,?)'')
                     [1, 2, 3, 4, 5, 6]],
          splitCalls = [''INSERT INTO t (a,b) VALUES (?,?)'']\<rparr>"
  by (simp add: BatchInsert_def newInsert_def splitQuery_example_ab flushInsert_def
      flushQuery_def slice_def ok_driver_def Let_def numeral_2_eq_2 numeral_3_eq_3)

lemma Flush_templates:
  assumes "Flush env d k = Some (d', r)"
  shows "splitCalls d' = splitCalls d \<and>
         (\<forall>q. rel_option (\<lambda>ins ins'. parts ins' = parts ins)
                 (batchInserts d q) (batchInserts d' q))"
proof (cases "batchInserts d k")
  case None
  with assms have "d' = d" by (simp add: Flush_def)
  then show ?thesis by (simp add: option.rel_refl)
next
  case (Some ins)
  with assms obtain d1 ins1 where
    f: "flushInsert env d ins = Some (d1, ins1, r)"
    and d': "d' = d1\<lparr>batchInserts := (batchInserts d1)(k \<mapsto> ins1)\<rparr>"
    by (auto simp add: Flush_def split: option.splits)
  from flushInsert_frame [OF f] have
    fr: "batchInserts d1 = batchInserts d" "splitCalls d1 = splitCalls d"
      "parts ins1 = parts ins"
    by (simp_all add: parts_def)
  have "rel_option (\<lambda>ins ins'. parts ins' = parts ins) (batchInserts d q) (batchInserts d' q)"
    for q
    using fr Some by (cases "q = k") (simp_all add: d' option.rel_refl)
  with fr d' show ?thesis by simp
qed

lemma FlushAll_templates:
  "FlushAll env d ks = Some (d', r) \<Longrightarrow>
     splitCalls d' = splitCalls d \<and>
     (\<forall>q ins'. batchInserts d' q = Some ins' \<longrightarrow>
        (\<exists>ins. batchInserts d q = Some ins \<and> parts ins' = parts ins)) \<and>
     (r = None \<longrightarrow> (\<forall>q. batchInserts d q \<noteq> None \<longrightarrow> batchInserts d' q \<noteq> None))"
proof (induction ks arbitrary: d)
  case Nil
  then show ?case by simp
next
  case (Cons k ks)
  show ?case
  proof (cases "batchInserts d k")
    case None
    with Cons.prems have "FlushAll env d ks = Some (d', r)" by simp
    from Cons.IH [OF this] show ?thesis .
  next
    case (Some ins)
    with Cons.prems obtain d1 ins1 r1 where
      f: "flushInsert env d ins = Some (d1, ins1, r1)"
      by (auto split: option.splits)
    from flushInsert_frame [OF f] have
      fr: "batchInserts d1 = batchInserts d" "splitCalls d1 = splitCalls d"
        "parts ins1 = parts ins"
      by (simp_all add: parts_def)
    show ?thesis
    proof (cases r1)
      case None
      let ?dn = "d1\<lparr>batchInserts := (batchInserts d1)(k \<mapsto> ins1)\<rparr>"
      from None Cons.prems Some f have "FlushAll env ?dn ks = Some (d', r)" by simp
      from Cons.IH [OF this] have
        ih1: "splitCalls d' = splitCalls ?dn"
        and ih2: "\<forall>q ins'. batchInserts d' q = Some ins' \<longrightarrow>
           (\<exists>ins. batchInserts ?dn q = Some ins \<and> parts ins' = parts ins)"
        and ih3: "r = None \<longrightarrow> (\<forall>q. batchInserts ?dn q \<noteq> None \<longrightarrow> batchInserts d' q \<noteq> None)"
        by blast+
      have a: "splitCalls d' = splitCalls d" using ih1 fr by simp
      have b: "\<exists>i. batchInserts d q = Some i \<and> parts ins' = parts i"
        if "batchInserts d' q = Some ins'" for q ins'
      proof -
        from ih2 that obtain j where j: "batchInserts ?dn q = Some j" "parts ins' = parts j"
          by blast
        show ?thesis
        proof (cases "q = k")
          case True
          with j have "j = ins1" by simp
          with j fr \<open>batchInserts d k = Some ins\<close> True show ?thesis by simp
        next
          case False
          with j fr show ?thesis by simp
        qed
      qed
      have c: "batchInserts d' q \<noteq> None" if "r = None" "batchInserts d q \<noteq> None" for q
      proof -
        from that(2) fr have "batchInserts ?dn q \<noteq> None" by simp
        with ih3 that(1) show ?thesis by blast
      qed
      from a b c show ?thesis by blast
    next
      case (Some e)
      with Cons.prems \<open>batchInserts d k = Some ins\<close> f
      have "d' = d1\<lparr>batchInserts := Map.empty\<rparr>" and "r = Some e" by simp_all
      with fr show ?thesis by simp
    qed
  qed
qed

lemma BatchInsert_triple_kept:
  assumes b: "BatchInsert env d query params = Some (d', r)"
    and sf: "splitQuery newInsert q = Some sf" "queryPart1 sf \<noteq> []"
    and inv: "triple_kept sf q d"
  shows "triple_kept sf q d' \<and>
         (query = q \<longrightarrow>
            splitCalls d' =
              (if batchInserts d q = None then splitCalls d @ [q] else splitCalls d))"
proof -
  define ins0 where "ins0 = (case batchInserts d query of None \<Rightarrow> newInsert | Some i \<Rightarrow> i)"
  from BatchInsert_effect [OF b] obtain ins1 x where
    sp: "(if queryPart1 ins0 = [] then splitQuery ins0 query else Some ins0) = Some ins1"
    and reg: "batchInserts d' = (batchInserts d)(query \<mapsto> x)"
    and px: "parts x = parts ins1"
    and sc: "splitCalls d' =
      (if queryPart1 ins0 = [] then splitCalls d @ [query] else splitCalls d)"
    unfolding ins0_def by blast
  show ?thesis
  proof (cases "query = q")
    case False
    with reg have "batchInserts d' q = batchInserts d q" by simp
    with inv False show ?thesis by (simp add: triple_kept_def)
  next
    case True
    show ?thesis
    proof (cases "batchInserts d q")
      case None
      with True have i0: "ins0 = newInsert" by (simp add: ins0_def)
      then have "queryPart1 ins0 = []" by (simp add: newInsert_def)
      with sp sc i0 True sf(1) have "ins1 = sf" "splitCalls d' = splitCalls d @ [q]"
        by simp_all
      with reg px True None show ?thesis by (simp add: triple_kept_def)
    next
      case (Some ins)
      with True have i0: "ins0 = ins" by (simp add: ins0_def)
      from inv Some have p: "parts ins = parts sf" by (simp add: triple_kept_def)
      from p sf(2) have "queryPart1 ins \<noteq> []" by (simp add: parts_def)
      with sp sc i0 have "ins1 = ins" "splitCalls d' = splitCalls d" by simp_all
      with reg px True p Some show ?thesis by (simp add: triple_kept_def)
    qed
  qed
qed

lemma step_triple_kept:
  assumes s: "step env d x = Some (d', r)"
    and sf: "splitQuery newInsert q = Some sf" "queryPart1 sf \<noteq> []"
    and inv: "triple_kept sf q d"
  shows "triple_kept sf q d'"
proof (cases x)
  case (OpBatchInsert query params)
  with s have "BatchInsert env d query params = Some (d', r)" by simp
  from BatchInsert_triple_kept [OF this sf inv] show ?thesis by simp
next
  case (OpFlush k)
  with s have "Flush env d k = Some (d', r)" by simp
  from Flush_templates [OF this] have
    "rel_option (\<lambda>ins ins'. parts ins' = parts ins) (batchInserts d q) (batchInserts d' q)"
    by simp
  with inv show ?thesis
    by (cases "batchInserts d q"; cases "batchInserts d' q") (simp_all add: triple_kept_def)
next
  case (OpFlushAll ks)
  with s have "FlushAll env d ks = Some (d', r)" by simp
  from FlushAll_templates [OF this] have
    "\<forall>ins'. batchInserts d' q = Some ins' \<longrightarrow>
        (\<exists>ins. batchInserts d q = Some ins \<and> parts ins' = parts ins)"
    by blast
  with inv show ?thesis
    by (cases "batchInserts d' q") (auto simp add: triple_kept_def)
qed

lemma run_triple_kept:
  assumes sf: "splitQuery newInsert q = Some sf" "queryPart1 sf \<noteq> []"
  shows "run env d xs = Some d' \<Longrightarrow> triple_kept sf q d \<Longrightarrow> triple_kept sf q d'"
proof (induction xs arbitrary: d)
  case Nil
  then show ?case by simp
next
  case (Cons x xs)
  from Cons.prems(1) obtain d1 r where s: "step env d x = Some (d1, r)"
    and rest: "run env d1 xs = Some d'"
    by (auto split: option.splits)
  from step_triple_kept [OF s sf Cons.prems(2)] have "triple_kept sf q d1" .
  from Cons.IH [OF rest this] show ?case .
qed

lemma step_keeps_template:
  assumes s: "step env d x = Some (d', r)"
    and "batchInserts d q \<noteq> None" and "batchInserts d' q = None"
  shows "\<exists>ks e. x = OpFlushAll ks \<and> r = Some e"
proof (cases x)
  case (OpBatchInsert query params)
  with s have "BatchInsert env d query params = Some (d', r)" by simp
  from BatchInsert_effect [OF this] obtain y where
    "batchInserts d' = (batchInserts d)(query \<mapsto> y)" by blast
  with assms(2,3) show ?thesis by (cases "q = query") simp_all
next
  case (OpFlush k)
  with s have "Flush env d k = Some (d', r)" by simp
  from Flush_templates [OF this] have
    "rel_option (\<lambda>ins ins'. parts ins' = parts ins) (batchInserts d q) (batchInserts d' q)"
    by simp
  with assms(2,3) show ?thesis by (cases "batchInserts d q") simp_all
next
  case (OpFlushAll ks)
  with s have f: "FlushAll env d ks = Some (d', r)" by simp
  from FlushAll_templates [OF f] assms(2,3) have "r \<noteq> None" by blast
  with OpFlushAll show ?thesis by auto
qed

lemma step_split_once:
  assumes s: "step env d x = Some (d', r)"
    and ok: "case x of OpFlushAll ks \<Rightarrow> r = None | OpFlush k \<Rightarrow> True
                   | OpBatchInsert query params \<Rightarrow> True"
    and sf: "splitQuery newInsert q = Some sf" "queryPart1 sf \<noteq> []"
    and inv: "split_once sf q d"
  shows "split_once sf q d' \<and>
         (batchInserts d' q \<noteq> None \<longleftrightarrow>
            batchInserts d q \<noteq> None \<or> (\<exists>ps. x = OpBatchInsert q ps))"
proof (cases x)
  case (OpBatchInsert query params)
  with s have "BatchInsert env d query params = Some (d', r)" by simp
  from BatchInsert_split_once [OF this sf inv] OpBatchInsert show ?thesis by auto
next
  case (OpFlush k)
  with s have "Flush env d k = Some (d', r)" by simp
  from Flush_templates [OF this] have
    sc: "splitCalls d' = splitCalls d"
    and rel: "rel_option (\<lambda>ins ins'. parts ins' = parts ins) (batchInserts d q) (batchInserts d' q)"
    by simp_all
  from rel inv sc OpFlush show ?thesis
    by (cases "batchInserts d q"; cases "batchInserts d' q") (simp_all add: split_once_def)
next
  case (OpFlushAll ks)
  with s ok have f: "FlushAll env d ks = Some (d', None)" by simp
  from FlushAll_templates [OF f] have
    sc: "splitCalls d' = splitCalls d"
    and dn: "\<forall>ins'. batchInserts d' q = Some ins' \<longrightarrow>
        (\<exists>ins. batchInserts d q = Some ins \<and> parts ins' = parts ins)"
    and up: "batchInserts d q \<noteq> None \<longrightarrow> batchInserts d' q \<noteq> None"
    by blast+
  from dn up inv sc OpFlushAll show ?thesis
    by (cases "batchInserts d q"; cases "batchInserts d' q") (auto simp add: split_once_def)
qed

lemma run_split_once_general:
  assumes sf: "splitQuery newInsert q = Some sf" "queryPart1 sf \<noteq> []"
  shows "no_failed_FlushAll env d xs \<Longrightarrow> run env d xs = Some d' \<Longrightarrow> split_once sf q d \<Longrightarrow>
         split_once sf q d' \<and>
         (batchInserts d' q \<noteq> None \<longleftrightarrow>
            batchInserts d q \<noteq> None \<or> (\<exists>ps. OpBatchInsert q ps \<in> set xs))"
proof (induction xs arbitrary: d)
  case Nil
  then show ?case by simp
next
  case (Cons x xs)
  from Cons.prems(2) obtain d1 r where s: "step env d x = Some (d1, r)"
    and rest: "run env d1 xs = Some d'"
    by (auto split: option.splits)
  from Cons.prems(1) s have
    ok: "case x of OpFlushAll ks \<Rightarrow> r = None | OpFlush k \<Rightarrow> True
                   | OpBatchInsert query params \<Rightarrow> True"
    and nf: "no_failed_FlushAll env d1 xs"
    by simp_all
  from step_split_once [OF s ok sf Cons.prems(3)] have
    inv1: "split_once sf q d1"
    and dom1: "batchInserts d1 q \<noteq> None \<longleftrightarrow>
                 batchInserts d q \<noteq> None \<or> (\<exists>ps. x = OpBatchInsert q ps)"
    by simp_all
  from Cons.IH [OF nf rest inv1] dom1 show ?case by auto
qed

lemma BatchInsert_runs_no_failed_FlushAll:
  "list_all is_BatchInsert xs \<Longrightarrow> no_failed_FlushAll env d xs"
proof (induction xs arbitrary: d)
  case Nil
  show ?case by simp
next
  case (Cons x xs)
  from Cons.prems obtain query params where x: "x = OpBatchInsert query params"
    by (cases x) auto
  from Cons.prems have "list_all is_BatchInsert xs" by simp
  from Cons.IH [OF this] x show ?case by (simp split: option.splits)
qed

lemma failed_FlushAll_between_two_rows:
  "run no_prepare_driver \<lparr>sqlDB = SqlDB ''mysql'' ''db'', PreparedStatements = Map.empty,
          prepstmts = Map.empty, driverName = ''mysql'', flushInterval = 3,
          batchInserts = Map.empty, trace = [], splitCalls = []\<rparr>
     [OpBatchInsert ''INSERT INTO t (a,b) VALUES (?,?)'' [1 :: int, 2],
         OpFlushAll [''INSERT INTO t (a,b) VALUES (?,?)''],
         OpBatchInsert ''INSERT INTO t (a,b) VALUES (?,?)'' [3, 4]] =
   Some \<lparr>sqlDB = SqlDB ''mysql'' ''db'', PreparedStatements = Map.empty,
          prepstmts = Map.empty, driverName = ''mysql'', flushInterval = 3,
          batchInserts = [''INSERT INTO t (a,b) VALUES (?,?)'' \<mapsto>
            \<lparr>bindParams = [3, 4], insertCtr = 1, queryPart1 = ''INSERT INTO t (a,b)'',
             queryPart2 = '' (?,?),'', queryPart3 = [], values_str = '' VALUES (?,?),''\<rparr>],
          trace = [PrepareCall ''INSERT INTO t (a,b) VALUES (?,?)''],
          splitCalls = [''INSERT INTO t (a,b) VALUES (?,?)'',
                        ''INSERT INTO t (a,b) VALUES (?,?)'']\<rparr>"
  by (simp add: BatchInsert_def newInsert_def splitQuery_example_ab flushInsert_def
      flushQuery_def slice_def no_prepare_driver_def Let_def)

lemma failed_FlushAll_in_the_run:
  "FlushAll no_prepare_driver
     (\<lparr>sqlDB = SqlDB ''mysql'' ''db'', PreparedStatements = Map.empty,
          prepstmts = Map.empty, driverName = ''mysql'', flushInterval = 3,
          batchInserts = Map.empty, trace = [], splitCalls = []\<rparr>
        \<lparr>batchInserts := [''INSERT INTO t (a,b) VALUES (?,?)'' \<mapsto> pending_ab],
         splitCalls := [''INSERT INTO t (a,b) VALUES (?,?)'']\<rparr>)
     [''INSERT INTO t (a,b) VALUES (?,?)''] =
   Some (\<lparr>sqlDB = SqlDB ''mysql'' ''db'', PreparedStatements = Map.empty,
          prepstmts = Map.empty, driverName = ''mysql'', flushInterval = 3,
          batchInserts = Map.empty, trace = [], splitCalls = []\<rparr>
           \<lparr>trace := [PrepareCall ''INSERT INTO t (a,b) VALUES (?,?)''],
            splitCalls := [''INSERT INTO t (a,b) VALUES (?,?)'']\<rparr>,
         Some (Error ''syntax error''))"
  by (simp add: flushInsert_def flushQuery_def slice_def no_prepare_driver_def pending_ab_def)

subsection \<open>The row counter stays below the length of the buffered text\<close>

lemma splitQuery_Some:
  assumes "splitQuery ins query = Some ins'"
  shows "insertCtr ins' = insertCtr ins" and "values_str ins' = values_str ins"
    and "bindParams ins' = bindParams ins" and "queryPart2 ins' \<noteq> []"
  using assms by (auto simp add: splitQuery_def split: option.splits if_splits)

lemma flushInsert_counter_bounded:
  assumes "flushInsert env d ins = Some (d', ins', r)" and "counter_bounded ins"
  shows "counter_bounded ins'"
proof (cases r)
  case None
  with assms(1) have "flushQuery env d ins (materialized ins) = (d', ins', None)"
    by (simp add: flushInsert_eq split: if_splits)
  from flushQuery_success(1) [OF this] assms(2) show ?thesis
    by (simp add: counter_bounded_def)
next
  case (Some e)
  with assms(1) have "flushQuery env d ins (materialized ins) = (d', ins', Some e)"
    by (simp add: flushInsert_eq split: if_splits)
  from flushQuery_error_keeps(1) [OF this] assms(2) show ?thesis by simp
qed

lemma BatchInsert_counter_bounded:
  assumes b: "BatchInsert env d query params = Some (d', r)"
    and inv: "\<forall>q ins. batchInserts d q = Some ins \<longrightarrow> counter_bounded ins"
  shows "\<forall>q ins. batchInserts d' q = Some ins \<longrightarrow> counter_bounded ins"
proof -
  define ins0 where "ins0 = (case batchInserts d query of None \<Rightarrow> newInsert | Some i \<Rightarrow> i)"
  define d1 where
    "d1 = (if queryPart1 ins0 = [] then d\<lparr>splitCalls := splitCalls d @ [query]\<rparr> else d)"
  from BatchInsert_Some [OF b] obtain ins1 where
    sp: "(if queryPart1 ins0 = [] then splitQuery ins0 query else Some ins0) = Some ins1"
    and c: "if flushInterval d \<le> insertCtr (add_row ins1 params)
        then (\<exists>d2 ins3. flushInsert env d1 (add_row ins1 params) = Some (d2, ins3, r) \<and>
                d' = d2\<lparr>batchInserts := (batchInserts d2)(query \<mapsto> ins3)\<rparr>)
        else r = None \<and>
             d' = d1\<lparr>batchInserts := (batchInserts d)(query \<mapsto> add_row ins1 params)\<rparr>"
    unfolding ins0_def d1_def by blast
  have len0: "insertCtr ins0 + length '' VALUES'' \<le> length (values_str ins0)"
  proof (cases "batchInserts d query")
    case None
    then show ?thesis by (simp add: ins0_def newInsert_def)
  next
    case (Some i)
    with inv show ?thesis by (simp add: ins0_def counter_bounded_def)
  qed
  have k1: "counter_bounded ins1"
  proof (cases "queryPart1 ins0 = []")
    case True
    with sp have "splitQuery ins0 query = Some ins1" by simp
    from splitQuery_Some [OF this] len0 show ?thesis by (simp add: counter_bounded_def)
  next
    case False
    with sp have e: "ins1 = ins0" by simp
    from False have "batchInserts d query \<noteq> None"
      by (auto simp add: ins0_def newInsert_def split: option.splits)
    with inv e show ?thesis by (auto simp add: ins0_def)
  qed
  then have k2: "counter_bounded (add_row ins1 params)"
    by (cases "queryPart2 ins1") (simp_all add: counter_bounded_def add_row_def)
  have reg1: "batchInserts d1 = batchInserts d" by (simp add: d1_def)
  show ?thesis
  proof (cases "flushInterval d \<le> insertCtr (add_row ins1 params)")
    case True
    with c obtain d2 ins3 where
      f: "flushInsert env d1 (add_row ins1 params) = Some (d2, ins3, r)"
      and d': "d' = d2\<lparr>batchInserts := (batchInserts d2)(query \<mapsto> ins3)\<rparr>"
      by auto
    from f k2 have "counter_bounded ins3" by (rule flushInsert_counter_bounded)
    moreover from f have "batchInserts d2 = batchInserts d1" by (rule flushInsert_frame)
    ultimately show ?thesis using inv reg1 by (simp add: d')
  next
    case False
    with c have "d' = d1\<lparr>batchInserts := (batchInserts d)(query \<mapsto> add_row ins1 params)\<rparr>"
      by simp
    with k2 inv show ?thesis by simp
  qed
qed

lemma Flush_counter_bounded:
  assumes "Flush env d k = Some (d', r)"
    and inv: "\<forall>q ins. batchInserts d q = Some ins \<longrightarrow> counter_bounded ins"
  shows "\<forall>q ins. batchInserts d' q = Some ins \<longrightarrow> counter_bounded ins"
proof (cases "batchInserts d k")
  case None
  with assms show ?thesis by (simp add: Flush_def)
next
  case (Some ins)
  with assms(1) obtain d1 ins1 where
    f: "flushInsert env d ins = Some (d1, ins1, r)"
    and d': "d' = d1\<lparr>batchInserts := (batchInserts d1)(k \<mapsto> ins1)\<rparr>"
    by (auto simp add: Flush_def split: option.splits)
  from Some inv have "counter_bounded ins" by simp
  with f have "counter_bounded ins1" by (rule flushInsert_counter_bounded)
  moreover from f have "batchInserts d1 = batchInserts d" by (rule flushInsert_frame)
  ultimately show ?thesis using inv by (simp add: d')
qed

lemma FlushAll_counter_bounded:
  "FlushAll env d ks = Some (d', r) \<Longrightarrow>
   \<forall>q ins. batchInserts d q = Some ins \<longrightarrow> counter_bounded ins \<Longrightarrow>
   \<forall>q ins. batchInserts d' q = Some ins \<longrightarrow> counter_bounded ins"
proof (induction ks arbitrary: d)
  case Nil
  then show ?case by simp
next
  case (Cons k ks)
  show ?case
  proof (cases "batchInserts d k")
    case None
    with Cons.prems(1) have "FlushAll env d ks = Some (d', r)" by simp
    from Cons.IH [OF this Cons.prems(2)] show ?thesis .
  next
    case (Some ins)
    with Cons.prems(1) obtain d1 ins1 r1 where
      f: "flushInsert env d ins = Some (d1, ins1, r1)"
      by (auto split: option.splits)
    from Some Cons.prems(2) have "counter_bounded ins" by simp
    with f have ok1: "counter_bounded ins1" by (rule flushInsert_counter_bounded)
    from f have reg: "batchInserts d1 = batchInserts d" by (rule flushInsert_frame)
    show ?thesis
    proof (cases r1)
      case None
      let ?dn = "d1\<lparr>batchInserts := (batchInserts d1)(k \<mapsto> ins1)\<rparr>"
      from None Cons.prems(1) Some f have n: "FlushAll env ?dn ks = Some (d', r)" by simp
      have "\<forall>q ins. batchInserts ?dn q = Some ins \<longrightarrow> counter_bounded ins"
        using ok1 reg Cons.prems(2) by simp
      from Cons.IH [OF n this] show ?thesis .
    next
      case (Some e)
      with Cons.prems(1) \<open>batchInserts d k = Some ins\<close> f
      have "d' = d1\<lparr>batchInserts := Map.empty\<rparr>" by simp
      then show ?thesis by simp
    qed
  qed
qed

lemma insertCtr_cannot_wrap:
  assumes "Open env drv dsn n = Inr d0" and "run env d0 xs = Some d"
    and "batchInserts d q = Some ins"
  shows "insertCtr ins + 7 \<le> length (values_str ins)"
proof -
  have "run env d0 xs = Some d \<Longrightarrow>
        \<forall>q ins. batchInserts d0 q = Some ins \<longrightarrow> counter_bounded ins \<Longrightarrow>
        \<forall>q ins. batchInserts d q = Some ins \<longrightarrow> counter_bounded ins" for d0
  proof (induction xs arbitrary: d0)
    case Nil
    then show ?case by simp
  next
    case (Cons x xs)
    from Cons.prems(1) obtain d1 r where s: "step env d0 x = Some (d1, r)"
      and rest: "run env d1 xs = Some d"
      by (auto split: option.splits)
    have "\<forall>q ins. batchInserts d1 q = Some ins \<longrightarrow> counter_bounded ins"
    proof (cases x)
      case (OpBatchInsert query params)
      with s have "BatchInsert env d0 query params = Some (d1, r)" by simp
      from BatchInsert_counter_bounded [OF this Cons.prems(2)] show ?thesis .
    next
      case (OpFlush k)
      with s have "Flush env d0 k = Some (d1, r)" by simp
      from Flush_counter_bounded [OF this Cons.prems(2)] show ?thesis .
    next
      case (OpFlushAll ks)
      with s have "FlushAll env d0 ks = Some (d1, r)" by simp
      from FlushAll_counter_bounded [OF this Cons.prems(2)] show ?thesis .
    qed
    from Cons.IH [OF rest this] show ?case .
  qed
  moreover from assms(1) have "\<forall>q ins. batchInserts d0 q = Some ins \<longrightarrow> counter_bounded ins"
    by (simp add: Open_registry)
  ultimately have "counter_bounded ins" using assms(2,3) by blast
  then show ?thesis by (simp add: counter_bounded_def)
qed

subsection \<open>The claims\<close>

text \<open>
  C1 says that a flush of a batch whose row counter is 0 makes no call, and that
  \<open>FlushAll\<close> on a registry of such batches makes none. \<open>flushInsert\<close> has no such
  test. On the connection opened with threshold 1, after one \<open>BatchInsert\<close> has flushed
  its row, the registry holds one batch with counter 0; \<open>FlushAll\<close> then drops the last
  byte of \<open>" VALUES"\<close>, and prepares and executes the text \<open>INSERT INTO t (a,b) VALUE\<close>
  with no parameter.
\<close>

theorem idle_FlushAll_calls_the_driver:
  "Open ok_driver ''mysql'' ''db'' 1 =
     Inr \<lparr>sqlDB = SqlDB ''mysql'' ''db'', PreparedStatements = Map.empty,
          prepstmts = Map.empty, driverName = ''mysql'', flushInterval = 1,
          batchInserts = Map.empty, trace = [], splitCalls = []\<rparr> \<and>
   BatchInsert ok_driver
     \<lparr>sqlDB = SqlDB ''mysql'' ''db'', PreparedStatements = Map.empty,
      prepstmts = Map.empty, driverName = ''mysql'', flushInterval = 1,
      batchInserts = Map.empty, trace = [], splitCalls = []\<rparr>
     ''INSERT INTO t (a,b) VALUES (?,?)'' [1, 2] = Some (drained_db, None) \<and>
   map_option insertCtr (batchInserts drained_db ''INSERT INTO t (a,b) VALUES (?,?)'') = Some 0 \<and>
   key_order drained_db [''INSERT INTO t (a,b) VALUES (?,?)''] \<and>
   map_option (\<lambda>(d, err). (drop (length (trace drained_db)) (trace d), err))
     (FlushAll ok_driver drained_db [''INSERT INTO t (a,b) VALUES (?,?)'']) =
     Some ([PrepareCall ''INSERT INTO t (a,b) VALUE'',
            ExecCall (Stmt ''INSERT INTO t (a,b) VALUE'') []], None)"
proof -
  have "BatchInsert ok_driver
     \<lparr>sqlDB = SqlDB ''mysql'' ''db'', PreparedStatements = Map.empty,
      prepstmts = Map.empty, driverName = ''mysql'', flushInterval = 1,
      batchInserts = Map.empty, trace = [], splitCalls = []\<rparr>
     ''INSERT INTO t (a,b) VALUES (?,?)'' [1, 2] = Some (drained_db, None)"
    unfolding drained_db_def by (rule one_row_threshold_1)
  moreover have "map_option insertCtr (batchInserts drained_db ''INSERT INTO t (a,b) VALUES (?,?)'') = Some 0"
    by (simp add: drained_db_def)
  moreover have "key_order drained_db [''INSERT INTO t (a,b) VALUES (?,?)'']"
    by (simp add: key_order_def drained_db_def)
  moreover have "map_option (\<lambda>(d, err). (drop (length (trace drained_db)) (trace d), err))
     (FlushAll ok_driver drained_db [''INSERT INTO t (a,b) VALUES (?,?)'']) =
     Some ([PrepareCall ''INSERT INTO t (a,b) VALUE'',
            ExecCall (Stmt ''INSERT INTO t (a,b) VALUE'') []], None)"
    by (simp only: FlushAll_example_idle) (simp add: drained_db_def)
  ultimately show ?thesis using Open_ok_driver by blast
qed

text \<open>
  C2, as the code has it. With threshold 3 and the template
  \<open>INSERT INTO t (a,b) VALUES (?,?)\<close>, the calls with \<open>(1,2)\<close> and \<open>(3,4)\<close> make no call on
  the connection; the call with \<open>(5,6)\<close> triggers the one flush: it prepares the text
  \<open>INSERT INTO t (a,b) VALUES (?,?), (?,?), (?,?)\<close> (each row fragment keeps the blank
  that follows the keyword in the template) and, when \<open>Prepare\<close> succeeds, executes it
  with \<open>[1,2,3,4,5,6]\<close>. When both succeed, the counter of the template is 0 afterwards.
\<close>

theorem threshold_round_trip:
  fixes env :: "int driver"
  assumes "Open env drv dsn 3 = Inr d0"
  shows "map_option trace (run env d0 [OpBatchInsert ''INSERT INTO t (a,b) VALUES (?,?)'' [1, 2]]) = Some [] \<and>
    map_option trace (run env d0 [OpBatchInsert ''INSERT INTO t (a,b) VALUES (?,?)'' [1, 2],
       OpBatchInsert ''INSERT INTO t (a,b) VALUES (?,?)'' [3, 4]]) = Some [] \<and>
    map_option trace (run env d0 [OpBatchInsert ''INSERT INTO t (a,b) VALUES (?,?)'' [1, 2],
       OpBatchInsert ''INSERT INTO t (a,b) VALUES (?,?)'' [3, 4],
       OpBatchInsert ''INSERT INTO t (a,b) VALUES (?,?)'' [5, 6]]) =
      Some (PrepareCall ''INSERT INTO t (a,b) VALUES (?,?), (?,?), (?,?)'' #
            (if Prepare env [] (sqlDB d0) ''INSERT INTO t (a,b) VALUES (?,?), (?,?), (?,?)'' = None
             then [ExecCall (Stmt ''INSERT INTO t (a,b) VALUES (?,?), (?,?), (?,?)'') [1, 2, 3, 4, 5, 6]]
             else [])) \<and>
    (Prepare env [] (sqlDB d0) ''INSERT INTO t (a,b) VALUES (?,?), (?,?), (?,?)'' = None \<and>
     Exec env [PrepareCall ''INSERT INTO t (a,b) VALUES (?,?), (?,?), (?,?)'']
       (Stmt ''INSERT INTO t (a,b) VALUES (?,?), (?,?), (?,?)'') [1, 2, 3, 4, 5, 6] = None \<longrightarrow>
     map_option (\<lambda>d. map_option insertCtr (batchInserts d ''INSERT INTO t (a,b) VALUES (?,?)''))
       (run env d0 [OpBatchInsert ''INSERT INTO t (a,b) VALUES (?,?)'' [1, 2],
          OpBatchInsert ''INSERT INTO t (a,b) VALUES (?,?)'' [3, 4],
          OpBatchInsert ''INSERT INTO t (a,b) VALUES (?,?)'' [5, 6]]) = Some (Some 0))"
  using assms by (rule three_rows_threshold_3)

theorem threshold_round_trip_witness:
  "Open ok_driver ''mysql'' ''db'' 3 =
     Inr (\<lparr>sqlDB = SqlDB ''mysql'' ''db'', PreparedStatements = Map.empty,
          prepstmts = Map.empty, driverName = ''mysql'', flushInterval = 3,
          batchInserts = Map.empty, trace = [], splitCalls = []\<rparr> :: int DB) \<and>
   map_option trace
     (run ok_driver \<lparr>sqlDB = SqlDB ''mysql'' ''db'', PreparedStatements = Map.empty,
          prepstmts = Map.empty, driverName = ''mysql'', flushInterval = 3,
          batchInserts = Map.empty, trace = [], splitCalls = []\<rparr>
        [OpBatchInsert ''INSERT INTO t (a,b) VALUES (?,?)'' [1 :: int, 2],
         OpBatchInsert ''INSERT INTO t (a,b) VALUES (?,?)'' [3, 4],
         OpBatchInsert ''INSERT INTO t (a,b) VALUES (?,?)'' [5, 6]]) =
     Some [PrepareCall ''INSERT INTO t (a,b) VALUES (?,?), (?,?), (?,?)'',
           ExecCall (Stmt ''INSERT INTO t (a,b) VALUES (?,?), (?,?), (?,?)'') [1, 2, 3, 4, 5, 6]] \<and>
   map_option (\<lambda>d. map_option insertCtr (batchInserts d ''INSERT INTO t (a,b) VALUES (?,?)''))
     (run ok_driver \<lparr>sqlDB = SqlDB ''mysql'' ''db'', PreparedStatements = Map.empty,
          prepstmts = Map.empty, driverName = ''mysql'', flushInterval = 3,
          batchInserts = Map.empty, trace = [], splitCalls = []\<rparr>
        [OpBatchInsert ''INSERT INTO t (a,b) VALUES (?,?)'' [1 :: int, 2],
         OpBatchInsert ''INSERT INTO t (a,b) VALUES (?,?)'' [3, 4],
         OpBatchInsert ''INSERT INTO t (a,b) VALUES (?,?)'' [5, 6]]) = Some (Some 0)"
proof -
  have o: "Open ok_driver ''mysql'' ''db'' 3 = Inr (\<lparr>sqlDB = SqlDB ''mysql'' ''db'', PreparedStatements = Map.empty,
          prepstmts = Map.empty, driverName = ''mysql'', flushInterval = 3,
          batchInserts = Map.empty, trace = [], splitCalls = []\<rparr> :: int DB)"
    by (rule Open_ok_driver)
  have p: "Prepare (ok_driver :: int driver) h dbh q = None" for h dbh q
    by (simp add: ok_driver_def)
  have e: "Exec (ok_driver :: int driver) h st ps = None" for h st ps
    by (simp add: ok_driver_def)
  from threshold_round_trip [OF o] o show ?thesis
    by (simp only: p e if_True simp_thms)
qed

text \<open>
  C2 as stated names the text \<open>INSERT INTO t (a,b) VALUES (?,?),(?,?),(?,?)\<close>. On a driver
  that never fails the three calls make exactly two calls on the connection, and both
  carry the text with a blank after each separator.
\<close>

theorem threshold_round_trip_counterexample:
  "map_option trace
     (run ok_driver (\<lparr>sqlDB = SqlDB ''mysql'' ''db'', PreparedStatements = Map.empty,
          prepstmts = Map.empty, driverName = ''mysql'', flushInterval = 3,
          batchInserts = Map.empty, trace = [], splitCalls = []\<rparr> :: int DB)
        [OpBatchInsert ''INSERT INTO t (a,b) VALUES (?,?)'' [1 :: int, 2],
         OpBatchInsert ''INSERT INTO t (a,b) VALUES (?,?)'' [3, 4],
         OpBatchInsert ''INSERT INTO t (a,b) VALUES (?,?)'' [5, 6]]) =
     Some [PrepareCall ''INSERT INTO t (a,b) VALUES (?,?), (?,?), (?,?)'',
           ExecCall (Stmt ''INSERT INTO t (a,b) VALUES (?,?), (?,?), (?,?)'') [1, 2, 3, 4, 5, 6]] \<and>
   ''INSERT INTO t (a,b) VALUES (?,?), (?,?), (?,?)'' \<noteq> ''INSERT INTO t (a,b) VALUES (?,?),(?,?),(?,?)''"
proof -
  have o: "Open ok_driver ''mysql'' ''db'' 3 = Inr (\<lparr>sqlDB = SqlDB ''mysql'' ''db'', PreparedStatements = Map.empty,
          prepstmts = Map.empty, driverName = ''mysql'', flushInterval = 3,
          batchInserts = Map.empty, trace = [], splitCalls = []\<rparr> :: int DB)"
    by (rule Open_ok_driver)
  have p: "Prepare (ok_driver :: int driver) h dbh q = None" for h dbh q
    by (simp add: ok_driver_def)
  from three_rows_threshold_3 [OF o] show ?thesis
    by (simp only: p if_True simp_thms) simp
qed

text \<open>
  C3, as the code has it. With threshold 2 and the template
  \<open>INSERT INTO t (a) VALUES (?) ON DUPLICATE KEY UPDATE a=?\<close>, the call with \<open>[x,y]\<close> makes
  no call on the connection and the call with \<open>[x2,y2]\<close> prepares the text
  \<open>INSERT INTO t (a) VALUES (?), (?)ON DUPLICATE KEY UPDATE a=?\<close>: the row fragment keeps
  the blank after the keyword and loses the byte before the conflict clause. When
  \<open>Prepare\<close> succeeds the text is executed with \<open>[x,y,x2,y2]\<close>. The conflict clause
  occurs exactly once in the text.
\<close>

theorem conflict_clause_kept_once:
  assumes "Open env drv dsn 2 = Inr d0"
  shows "map_option trace
      (run env d0
         [OpBatchInsert ''INSERT INTO t (a) VALUES (?) ON DUPLICATE KEY UPDATE a=?'' [x, y]]) = Some [] \<and>
    map_option trace
      (run env d0
         [OpBatchInsert ''INSERT INTO t (a) VALUES (?) ON DUPLICATE KEY UPDATE a=?'' [x, y],
          OpBatchInsert ''INSERT INTO t (a) VALUES (?) ON DUPLICATE KEY UPDATE a=?'' [x2, y2]]) =
      Some (PrepareCall ''INSERT INTO t (a) VALUES (?), (?)ON DUPLICATE KEY UPDATE a=?'' #
            (if Prepare env [] (sqlDB d0)
                  ''INSERT INTO t (a) VALUES (?), (?)ON DUPLICATE KEY UPDATE a=?'' = None
             then [ExecCall (Stmt ''INSERT INTO t (a) VALUES (?), (?)ON DUPLICATE KEY UPDATE a=?'')
                     [x, y, x2, y2]]
             else [])) \<and>
    length (FindAllStringIndex dupeRegexp
      ''INSERT INTO t (a) VALUES (?), (?)ON DUPLICATE KEY UPDATE a=?'') = 1"
  using assms by (rule two_rows_threshold_2)

theorem conflict_clause_kept_once_witness:
  "Open ok_driver ''mysql'' ''db'' 2 =
     Inr (\<lparr>sqlDB = SqlDB ''mysql'' ''db'', PreparedStatements = Map.empty,
          prepstmts = Map.empty, driverName = ''mysql'', flushInterval = 2,
          batchInserts = Map.empty, trace = [], splitCalls = []\<rparr> :: string DB) \<and>
   map_option trace
     (run ok_driver
        \<lparr>sqlDB = SqlDB ''mysql'' ''db'', PreparedStatements = Map.empty,
          prepstmts = Map.empty, driverName = ''mysql'', flushInterval = 2,
          batchInserts = Map.empty, trace = [], splitCalls = []\<rparr>
        [OpBatchInsert ''INSERT INTO t (a) VALUES (?) ON DUPLICATE KEY UPDATE a=?'' [''x'', ''y''],
         OpBatchInsert ''INSERT INTO t (a) VALUES (?) ON DUPLICATE KEY UPDATE a=?'' [''x2'', ''y2'']]) =
     Some [PrepareCall ''INSERT INTO t (a) VALUES (?), (?)ON DUPLICATE KEY UPDATE a=?'',
           ExecCall (Stmt ''INSERT INTO t (a) VALUES (?), (?)ON DUPLICATE KEY UPDATE a=?'')
             [''x'', ''y'', ''x2'', ''y2'']]"
proof -
  have o: "Open ok_driver ''mysql'' ''db'' 2 =
     Inr (\<lparr>sqlDB = SqlDB ''mysql'' ''db'', PreparedStatements = Map.empty,
          prepstmts = Map.empty, driverName = ''mysql'', flushInterval = 2,
          batchInserts = Map.empty, trace = [], splitCalls = []\<rparr> :: string DB)"
    by (rule Open_ok_driver)
  have p: "Prepare (ok_driver :: string driver) h dbh q = None" for h dbh q
    by (simp add: ok_driver_def)
  from conflict_clause_kept_once [OF o, of "''x''" "''y''" "''x2''" "''y2''"] o show ?thesis
    by (simp only: p if_True simp_thms)
qed

text \<open>
  C3 as stated names the text \<open>INSERT INTO t (a) VALUES (?),(?) ON DUPLICATE KEY UPDATE a=?\<close>.
  On a driver that never fails the two calls make exactly two calls on the connection,
  and both carry the other text.
\<close>

theorem conflict_clause_kept_once_counterexample:
  "map_option trace
     (run ok_driver
        (\<lparr>sqlDB = SqlDB ''mysql'' ''db'', PreparedStatements = Map.empty,
          prepstmts = Map.empty, driverName = ''mysql'', flushInterval = 2,
          batchInserts = Map.empty, trace = [], splitCalls = []\<rparr> :: string DB)
        [OpBatchInsert ''INSERT INTO t (a) VALUES (?) ON DUPLICATE KEY UPDATE a=?'' [''x'', ''y''],
         OpBatchInsert ''INSERT INTO t (a) VALUES (?) ON DUPLICATE KEY UPDATE a=?'' [''x2'', ''y2'']]) =
     Some [PrepareCall ''INSERT INTO t (a) VALUES (?), (?)ON DUPLICATE KEY UPDATE a=?'',
           ExecCall (Stmt ''INSERT INTO t (a) VALUES (?), (?)ON DUPLICATE KEY UPDATE a=?'')
             [''x'', ''y'', ''x2'', ''y2'']] \<and>
   ''INSERT INTO t (a) VALUES (?), (?)ON DUPLICATE KEY UPDATE a=?'' \<noteq>
   ''INSERT INTO t (a) VALUES (?),(?) ON DUPLICATE KEY UPDATE a=?''"
proof -
  have o: "Open ok_driver ''mysql'' ''db'' 2 =
     Inr (\<lparr>sqlDB = SqlDB ''mysql'' ''db'', PreparedStatements = Map.empty,
          prepstmts = Map.empty, driverName = ''mysql'', flushInterval = 2,
          batchInserts = Map.empty, trace = [], splitCalls = []\<rparr> :: string DB)"
    by (rule Open_ok_driver)
  have p: "Prepare (ok_driver :: string driver) h dbh q = None" for h dbh q
    by (simp add: ok_driver_def)
  from two_rows_threshold_2 [OF o, of "''x''" "''y''" "''x2''" "''y2''"] show ?thesis
    by (simp only: p if_True simp_thms) simp
qed



text \<open>
  C5. For every order \<open>ks\<close> in which \<open>FlushAll\<close> visits the registry: if it returns an
  error, then some flush failed with that very error after all flushes before it had
  succeeded, the state returned is the state right after that failed flush (nothing
  later was attempted) and the whole registry is empty, so every other pending batch is
  lost. And \<open>FlushAll\<close> returns success exactly when every flush it reaches succeeds.
\<close>

theorem FlushAll_aborts_and_clears:
  "(\<forall>d' e. FlushAll env d ks = Some (d', Some e) \<longrightarrow>
      batchInserts d' = Map.empty \<and>
      (\<exists>ks1 k ks2 dm ins d1 ins1.
         ks = ks1 @ k # ks2 \<and> FlushAll env d ks1 = Some (dm, None) \<and>
         batchInserts dm k = Some ins \<and>
         flushInsert env dm ins = Some (d1, ins1, Some e) \<and>
         d' = d1\<lparr>batchInserts := Map.empty\<rparr>)) \<and>
   ((\<exists>d'. FlushAll env d ks = Some (d', None)) =
      (\<forall>ks1 k ks2 dm ins.
         ks = ks1 @ k # ks2 \<longrightarrow> FlushAll env d ks1 = Some (dm, None) \<longrightarrow>
         batchInserts dm k = Some ins \<longrightarrow>
         (\<exists>d1 ins1. flushInsert env dm ins = Some (d1, ins1, None))))"
proof -
  have err: "batchInserts d' = Map.empty \<and>
            (\<exists>ks1 k ks2 dm ins d1 ins1.
               ks = ks1 @ k # ks2 \<and> FlushAll env d ks1 = Some (dm, None) \<and>
               batchInserts dm k = Some ins \<and>
               flushInsert env dm ins = Some (d1, ins1, Some e) \<and>
               d' = d1\<lparr>batchInserts := Map.empty\<rparr>)"
    if "FlushAll env d ks = Some (d', Some e)" for d' e
  proof -
    from FlushAll_error_decomp [OF that] obtain ks1 k ks2 dm ins d1 ins1 where
      h: "ks = ks1 @ k # ks2" "FlushAll env d ks1 = Some (dm, None)"
        "batchInserts dm k = Some ins" "flushInsert env dm ins = Some (d1, ins1, Some e)"
        "d' = d1\<lparr>batchInserts := Map.empty\<rparr>"
      by blast
    from h(5) have "batchInserts d' = Map.empty" by simp
    with h show ?thesis by blast
  qed
  have all_ok: "\<exists>d1 ins1. flushInsert env dm ins = Some (d1, ins1, None)"
    if "FlushAll env d ks = Some (d', None)" "ks = ks1 @ k # ks2"
      "FlushAll env d ks1 = Some (dm, None)" "batchInserts dm k = Some ins"
    for d' ks1 k ks2 dm ins
  proof -
    from that(1,2,3) have "FlushAll env dm (k # ks2) = Some (d', None)"
      by (simp add: FlushAll_append)
    with that(4) show ?thesis
      by (auto split: option.splits)
  qed
  have conv: "\<exists>d'. FlushAll env d ks = Some (d', None)"
    if h: "\<forall>ks1 k ks2 dm ins.
               ks = ks1 @ k # ks2 \<longrightarrow> FlushAll env d ks1 = Some (dm, None) \<longrightarrow>
               batchInserts dm k = Some ins \<longrightarrow>
               (\<exists>d1 ins1. flushInsert env dm ins = Some (d1, ins1, None))"
    using h by (intro FlushAll_all_ok) blast
  from err all_ok conv show ?thesis by blast
qed

theorem FlushAll_aborts_and_clears_witness:
  "FlushAll no_prepare_driver pending_db
     [''INSERT INTO t (a,b) VALUES (?,?)'', ''INSERT INTO u (c) VALUES (?)''] =
     Some (pending_db\<lparr>batchInserts := Map.empty,
                       trace := [PrepareCall ''INSERT INTO t (a,b) VALUES (?,?)'']\<rparr>,
           Some (Error ''syntax error'')) \<and>
   batchInserts (pending_db\<lparr>batchInserts := Map.empty,
                       trace := [PrepareCall ''INSERT INTO t (a,b) VALUES (?,?)'']\<rparr>)
     = Map.empty"
proof -
  let ?ks = "[''INSERT INTO t (a,b) VALUES (?,?)'', ''INSERT INTO u (c) VALUES (?)'']"
  let ?after = "pending_db\<lparr>batchInserts := Map.empty,
                       trace := [PrepareCall ''INSERT INTO t (a,b) VALUES (?,?)'']\<rparr>"
  have 1: "FlushAll no_prepare_driver pending_db ?ks = Some (?after, Some (Error ''syntax error''))"
    by (simp add: pending_db_def flushInsert_eq pending_nonempty materialized_pending
        flushQuery_def no_prepare_driver_def)
  from FlushAll_aborts_and_clears [of no_prepare_driver pending_db ?ks] 1
  have "batchInserts ?after = Map.empty" by blast
  with 1 show ?thesis by blast
qed

text \<open>
  C6, as the code has it. \<open>Open\<close> fails exactly when \<open>sql.Open\<close> fails, with its error;
  otherwise it returns a connection whose batch registry, cache of prepared statements
  and map of caller-managed statements are empty, with the threshold and the driver
  name it was given. It never calls \<open>Ping\<close>: its result does not depend on what \<open>Ping\<close>
  would answer.
\<close>

theorem Open_only_opens:
  "(\<forall>err. sql_Open env drv dsn = Some err \<longrightarrow> Open env drv dsn n = Inl err) \<and>
   (sql_Open env drv dsn = None \<longrightarrow>
      (\<exists>d. Open env drv dsn n = Inr d \<and> batchInserts d = Map.empty \<and>
           prepstmts d = Map.empty \<and> PreparedStatements d = Map.empty \<and>
           flushInterval d = n \<and> driverName d = drv \<and> trace d = [])) \<and>
   (\<forall>p. Open (env\<lparr>Ping := p\<rparr>) drv dsn n = Open env drv dsn n)"
  by (simp add: Open_def split: option.splits)

theorem Open_only_opens_witness:
  "sql_Open (ok_driver :: int driver) ''mysql'' ''db'' = None \<and>
   (\<exists>d. Open (ok_driver :: int driver) ''mysql'' ''db'' 3 = Inr d \<and> batchInserts d = Map.empty \<and>
        prepstmts d = Map.empty \<and> PreparedStatements d = Map.empty) \<and>
   sql_Open (unknown_driver :: int driver) ''oracle'' ''db'' = Some (Error ''sql: unknown driver'') \<and>
   Open (unknown_driver :: int driver) ''oracle'' ''db'' 3 = Inl (Error ''sql: unknown driver'')"
proof -
  have 1: "sql_Open (ok_driver :: int driver) ''mysql'' ''db'' = None"
    by (simp add: ok_driver_def)
  have 2: "sql_Open (unknown_driver :: int driver) ''oracle'' ''db'' = Some (Error ''sql: unknown driver'')"
    by (simp add: unknown_driver_def)
  from Open_only_opens [of "ok_driver :: int driver" "''mysql''" "''db''" 3] 1
  have "\<exists>d. Open (ok_driver :: int driver) ''mysql'' ''db'' 3 = Inr d \<and> batchInserts d = Map.empty \<and>
        prepstmts d = Map.empty \<and> PreparedStatements d = Map.empty"
    by blast
  moreover from Open_only_opens [of "unknown_driver :: int driver" "''oracle''" "''db''" 3] 2
  have "Open (unknown_driver :: int driver) ''oracle'' ''db'' 3 = Inl (Error ''sql: unknown driver'')"
    by blast
  ultimately show ?thesis using 1 2 by blast
qed

text \<open>
  C6 as stated has \<open>Open\<close> verify that the connection is reachable. On a driver whose
  \<open>sql.Open\<close> accepts the arguments and whose \<open>Ping\<close> fails, \<open>Open\<close> succeeds.
\<close>

theorem Open_verifies_reachability_counterexample:
  "Ping (unreachable_driver :: int driver) (SqlDB ''mysql'' ''db'') = Some (Error ''connection refused'') \<and>
   Open (unreachable_driver :: int driver) ''mysql'' ''db'' 3 =
     Inr \<lparr>sqlDB = SqlDB ''mysql'' ''db'', PreparedStatements = Map.empty,
          prepstmts = Map.empty, driverName = ''mysql'', flushInterval = 3,
          batchInserts = Map.empty, trace = [], splitCalls = []\<rparr>"
  by (simp add: Open_def unreachable_driver_def)

text \<open>
  C7. Every batch state reachable from \<open>Open\<close> through any sequence of \<open>BatchInsert\<close>,
  single-template flush and \<open>FlushAll\<close> operations (whatever the driver answers and in
  whatever order \<open>FlushAll\<close> visits the registry) satisfies: if its row counter is 0,
  then \<open>values\<close> is the bare \<open>" VALUES"\<close> and the list of bound parameters is empty.
\<close>

theorem drained_batch_is_empty:
  assumes "Open env drv dsn n = Inr d0"
    and "run env d0 ops = Some d"
    and "batchInserts d q = Some ins"
    and "insertCtr ins = 0"
  shows "values_str ins = '' VALUES'' \<and> bindParams ins = []"
proof -
  from assms(1) have "registry_ok d0" by (simp add: registry_ok_def Open_registry)
  with assms(2) have "registry_ok d" by (rule run_registry_ok)
  with assms(3,4) show ?thesis by (simp add: registry_ok_def drained_ok_def)
qed

theorem drained_batch_is_empty_witness:
  "\<exists>d0 d ins.
     Open ok_driver ''mysql'' ''db'' 1 = Inr d0 \<and>
     run ok_driver d0 [OpBatchInsert ''INSERT INTO t (a,b) VALUES (?,?)'' [1 :: int, 2]] = Some d \<and>
     batchInserts d ''INSERT INTO t (a,b) VALUES (?,?)'' = Some ins \<and>
     insertCtr ins = 0 \<and> values_str ins = '' VALUES'' \<and> bindParams ins = []"
proof -
  let ?q = "''INSERT INTO t (a,b) VALUES (?,?)''"
  let ?start = "\<lparr>sqlDB = SqlDB ''mysql'' ''db'', PreparedStatements = Map.empty,
      prepstmts = Map.empty, driverName = ''mysql'', flushInterval = 1,
      batchInserts = Map.empty, trace = [], splitCalls = []\<rparr> :: int DB"
  let ?ins = "\<lparr>bindParams = [], insertCtr = 0, queryPart1 = ''INSERT INTO t (a,b)'',
      queryPart2 = '' (?,?),'', queryPart3 = [], values_str = '' VALUES''\<rparr> :: int insert_t"
  let ?final = "\<lparr>sqlDB = SqlDB ''mysql'' ''db'', PreparedStatements = Map.empty,
      prepstmts = [?q \<mapsto> Stmt ?q], driverName = ''mysql'', flushInterval = 1,
      batchInserts = [?q \<mapsto> ?ins],
      trace = [PrepareCall ?q, ExecCall (Stmt ?q) [1, 2]], splitCalls = [?q]\<rparr> :: int DB"
  have d0: "Open ok_driver ''mysql'' ''db'' 1 = Inr ?start"
    by (rule Open_ok_driver)
  have d: "run ok_driver ?start [OpBatchInsert ?q [1, 2]] = Some ?final"
    by (simp only: run.simps step.simps one_row_threshold_1 option.case prod.case)
  have ins: "batchInserts ?final ?q = Some ?ins"
    by simp
  have ctr: "insertCtr ?ins = 0"
    by simp
  from drained_batch_is_empty [OF d0 d ins ctr] d0 d ins ctr show ?thesis by blast
qed

text \<open>
  C8, as the code has it. Take a template \<open>q\<close> that \<open>splitQuery\<close> splits into a triple
  whose first part, the trimmed text before the keyword, is not empty. After any
  sequence of \<open>BatchInsert\<close>, single-template flush and \<open>FlushAll\<close> operations on a freshly
  opened connection (whatever the driver answers), the batch of \<open>q\<close> carries that same
  triple. A \<open>BatchInsert\<close> with \<open>q\<close> calls \<open>splitQuery\<close> exactly when the registry holds no
  batch for \<open>q\<close>, and the only operation that takes a batch out of the registry is a
  \<open>FlushAll\<close> that fails. So \<open>splitQuery\<close> is called on the first call with \<open>q\<close> and on the
  first call with \<open>q\<close> after a failed \<open>FlushAll\<close>; in a run in which no \<open>FlushAll\<close> fails it
  is called with \<open>q\<close> exactly once if \<open>q\<close> was used at all.
\<close>

theorem split_computed_once:
  fixes d0 :: "'v DB" and sf :: "'v insert_t"
  assumes "Open env drv dsn n = Inr d0"
    and "splitQuery newInsert q = Some sf" and "queryPart1 sf \<noteq> []"
    and "run env d0 ops = Some d"
  shows "(\<forall>ins. batchInserts d q = Some ins \<longrightarrow>
            queryPart1 ins = queryPart1 sf \<and> queryPart2 ins = queryPart2 sf \<and>
            queryPart3 ins = queryPart3 sf) \<and>
         (\<forall>env2 ps d' r. BatchInsert env2 d q ps = Some (d', r) \<longrightarrow>
            splitCalls d' =
              (if batchInserts d q = None then splitCalls d @ [q] else splitCalls d)) \<and>
         (\<forall>env2 x d' r. step env2 d x = Some (d', r) \<longrightarrow>
            batchInserts d q \<noteq> None \<longrightarrow> batchInserts d' q = None \<longrightarrow>
            (\<exists>ks e. x = OpFlushAll ks \<and> r = Some e)) \<and>
         (no_failed_FlushAll env d0 ops \<longrightarrow>
            count_list (splitCalls d) q =
              (if (\<exists>ps. OpBatchInsert q ps \<in> set ops) then 1 else 0))"
proof -
  from assms(1) have e: "batchInserts d0 q = None" and c0: "count_list (splitCalls d0) q = 0"
    by (simp_all add: Open_registry)
  from e have "triple_kept sf q d0" by (simp add: triple_kept_def)
  from run_triple_kept [OF assms(2,3,4) this] have tk: "triple_kept sf q d" .
  have 1: "\<forall>ins. batchInserts d q = Some ins \<longrightarrow>
            queryPart1 ins = queryPart1 sf \<and> queryPart2 ins = queryPart2 sf \<and>
            queryPart3 ins = queryPart3 sf"
    using tk by (auto simp add: triple_kept_def parts_def)
  have 2: "splitCalls d' =
              (if batchInserts d q = None then splitCalls d @ [q] else splitCalls d)"
    if "BatchInsert env2 d q ps = Some (d', r)" for env2 ps d' r
    using BatchInsert_triple_kept [OF that assms(2,3) tk] by simp
  have 3: "\<exists>ks e. x = OpFlushAll ks \<and> r = Some e"
    if "step env2 d x = Some (d', r)" "batchInserts d q \<noteq> None" "batchInserts d' q = None"
    for env2 x d' r
    using that by (rule step_keeps_template)
  have 4: "count_list (splitCalls d) q =
              (if (\<exists>ps. OpBatchInsert q ps \<in> set ops) then 1 else 0)"
    if nf: "no_failed_FlushAll env d0 ops"
  proof -
    from e c0 have "split_once sf q d0" by (simp add: split_once_def)
    from run_split_once_general [OF assms(2,3) nf assms(4) this] e have
      inv: "split_once sf q d"
      and dom: "batchInserts d q \<noteq> None \<longleftrightarrow> (\<exists>ps. OpBatchInsert q ps \<in> set ops)"
      by simp_all
    show ?thesis
    proof (cases "batchInserts d q")
      case None
      with inv dom show ?thesis by (simp add: split_once_def)
    next
      case (Some ins)
      with inv dom show ?thesis by (auto simp add: split_once_def)
    qed
  qed
  from 1 2 3 4 show ?thesis by blast
qed

theorem split_computed_once_witness:
  "\<exists>d e.
     splitQuery (newInsert :: int insert_t) ''INSERT INTO t (a,b) VALUES (?,?)'' =
       Some (newInsert\<lparr>queryPart1 := ''INSERT INTO t (a,b)'', queryPart2 := '' (?,?),''\<rparr>) \<and>
     run ok_driver \<lparr>sqlDB = SqlDB ''mysql'' ''db'', PreparedStatements = Map.empty,
          prepstmts = Map.empty, driverName = ''mysql'', flushInterval = 3,
          batchInserts = Map.empty, trace = [], splitCalls = []\<rparr>
         [OpBatchInsert ''INSERT INTO t (a,b) VALUES (?,?)'' [1 :: int, 2],
         OpBatchInsert ''INSERT INTO t (a,b) VALUES (?,?)'' [3, 4],
         OpBatchInsert ''INSERT INTO t (a,b) VALUES (?,?)'' [5, 6],
         OpBatchInsert ''INSERT INTO t (a,b) VALUES (?,?)'' [7, 8]] = Some d \<and>
     no_failed_FlushAll ok_driver \<lparr>sqlDB = SqlDB ''mysql'' ''db'', PreparedStatements = Map.empty,
          prepstmts = Map.empty, driverName = ''mysql'', flushInterval = 3,
          batchInserts = Map.empty, trace = [], splitCalls = []\<rparr>
         [OpBatchInsert ''INSERT INTO t (a,b) VALUES (?,?)'' [1 :: int, 2],
         OpBatchInsert ''INSERT INTO t (a,b) VALUES (?,?)'' [3, 4],
         OpBatchInsert ''INSERT INTO t (a,b) VALUES (?,?)'' [5, 6],
         OpBatchInsert ''INSERT INTO t (a,b) VALUES (?,?)'' [7, 8]] \<and>
     count_list (splitCalls d) ''INSERT INTO t (a,b) VALUES (?,?)'' = 1 \<and>
     map_option parts (batchInserts d ''INSERT INTO t (a,b) VALUES (?,?)'') =
       Some (''INSERT INTO t (a,b)'', '' (?,?),'', []) \<and>
     run no_prepare_driver \<lparr>sqlDB = SqlDB ''mysql'' ''db'', PreparedStatements = Map.empty,
          prepstmts = Map.empty, driverName = ''mysql'', flushInterval = 3,
          batchInserts = Map.empty, trace = [], splitCalls = []\<rparr>
         [OpBatchInsert ''INSERT INTO t (a,b) VALUES (?,?)'' [1 :: int, 2],
         OpFlushAll [''INSERT INTO t (a,b) VALUES (?,?)''],
         OpBatchInsert ''INSERT INTO t (a,b) VALUES (?,?)'' [3, 4]] = Some e \<and>
     map_option parts (batchInserts e ''INSERT INTO t (a,b) VALUES (?,?)'') =
       Some (''INSERT INTO t (a,b)'', '' (?,?),'', [])"
proof -
  let ?q = "''INSERT INTO t (a,b) VALUES (?,?)''"
  let ?sf = "newInsert\<lparr>queryPart1 := ''INSERT INTO t (a,b)'', queryPart2 := '' (?,?),''\<rparr>
               :: int insert_t"
  let ?ops = "[OpBatchInsert ''INSERT INTO t (a,b) VALUES (?,?)'' [1 :: int, 2],
         OpBatchInsert ''INSERT INTO t (a,b) VALUES (?,?)'' [3, 4],
         OpBatchInsert ''INSERT INTO t (a,b) VALUES (?,?)'' [5, 6],
         OpBatchInsert ''INSERT INTO t (a,b) VALUES (?,?)'' [7, 8]]"
  let ?opsf = "[OpBatchInsert ''INSERT INTO t (a,b) VALUES (?,?)'' [1 :: int, 2],
         OpFlushAll [''INSERT INTO t (a,b) VALUES (?,?)''],
         OpBatchInsert ''INSERT INTO t (a,b) VALUES (?,?)'' [3, 4]]"
  have o: "Open ok_driver ''mysql'' ''db'' 3 = Inr (\<lparr>sqlDB = SqlDB ''mysql'' ''db'', PreparedStatements = Map.empty,
          prepstmts = Map.empty, driverName = ''mysql'', flushInterval = 3,
          batchInserts = Map.empty, trace = [], splitCalls = []\<rparr> :: int DB)"
    by (rule Open_ok_driver)
  have o2: "Open no_prepare_driver ''mysql'' ''db'' 3 = Inr (\<lparr>sqlDB = SqlDB ''mysql'' ''db'', PreparedStatements = Map.empty,
          prepstmts = Map.empty, driverName = ''mysql'', flushInterval = 3,
          batchInserts = Map.empty, trace = [], splitCalls = []\<rparr> :: int DB)"
    by (simp add: Open_def no_prepare_driver_def)
  have sp: "splitQuery newInsert ?q = Some ?sf" by (rule splitQuery_example_ab)
  have ne: "queryPart1 ?sf \<noteq> []" by simp
  have nf: "no_failed_FlushAll ok_driver (\<lparr>sqlDB = SqlDB ''mysql'' ''db'', PreparedStatements = Map.empty,
          prepstmts = Map.empty, driverName = ''mysql'', flushInterval = 3,
          batchInserts = Map.empty, trace = [], splitCalls = []\<rparr> :: int DB) ?ops"
    by (rule BatchInsert_runs_no_failed_FlushAll) simp
  define d :: "int DB" where
    "d = \<lparr>sqlDB = SqlDB ''mysql'' ''db'', PreparedStatements = Map.empty,
          prepstmts = [''INSERT INTO t (a,b) VALUES (?,?), (?,?), (?,?)'' \<mapsto>
                         Stmt ''INSERT INTO t (a,b) VALUES (?,?), (?,?), (?,?)''],
          driverName = ''mysql'', flushInterval = 3,
          batchInserts = [''INSERT INTO t (a,b) VALUES (?,?)'' \<mapsto>
            \<lparr>bindParams = [7, 8], insertCtr = 1, queryPart1 = ''INSERT INTO t (a,b)'',
             queryPart2 = '' (?,?),'', queryPart3 = [], values_str = '' VALUES (?,?),''\<rparr>],
          trace = [PrepareCall ''INSERT INTO t (a,b) VALUES (?,?), (?,?), (?,?)'',
                   ExecCall (Stmt ''INSERT INTO t (a,b) VALUES (?,?), (?,?), (?,?)'')
                     [1, 2, 3, 4, 5, 6]],
          splitCalls = [''INSERT INTO t (a,b) VALUES (?,?)'']\<rparr>"
  have r: "run ok_driver (\<lparr>sqlDB = SqlDB ''mysql'' ''db'', PreparedStatements = Map.empty,
          prepstmts = Map.empty, driverName = ''mysql'', flushInterval = 3,
          batchInserts = Map.empty, trace = [], splitCalls = []\<rparr> :: int DB) ?ops = Some d"
    unfolding d_def by (rule four_rows_threshold_3)
  have i: "batchInserts d ?q \<noteq> None" by (simp add: d_def)
  define e :: "int DB" where
    "e = \<lparr>sqlDB = SqlDB ''mysql'' ''db'', PreparedStatements = Map.empty,
          prepstmts = Map.empty, driverName = ''mysql'', flushInterval = 3,
          batchInserts = [''INSERT INTO t (a,b) VALUES (?,?)'' \<mapsto>
            \<lparr>bindParams = [3, 4], insertCtr = 1, queryPart1 = ''INSERT INTO t (a,b)'',
             queryPart2 = '' (?,?),'', queryPart3 = [], values_str = '' VALUES (?,?),''\<rparr>],
          trace = [PrepareCall ''INSERT INTO t (a,b) VALUES (?,?)''],
          splitCalls = [''INSERT INTO t (a,b) VALUES (?,?)'',
                        ''INSERT INTO t (a,b) VALUES (?,?)'']\<rparr>"
  have rf: "run no_prepare_driver (\<lparr>sqlDB = SqlDB ''mysql'' ''db'', PreparedStatements = Map.empty,
          prepstmts = Map.empty, driverName = ''mysql'', flushInterval = 3,
          batchInserts = Map.empty, trace = [], splitCalls = []\<rparr> :: int DB) ?opsf = Some e"
    unfolding e_def by (rule failed_FlushAll_between_two_rows)
  have j: "batchInserts e ?q \<noteq> None" by (simp add: e_def)
  have m: "\<exists>ps. OpBatchInsert ?q ps \<in> set ?ops" by auto
  from split_computed_once [OF o sp ne r] m nf have
    c: "count_list (splitCalls d) ?q = 1"
    and p: "\<forall>ins. batchInserts d ?q = Some ins \<longrightarrow>
            queryPart1 ins = queryPart1 ?sf \<and> queryPart2 ins = queryPart2 ?sf \<and>
            queryPart3 ins = queryPart3 ?sf"
    by simp_all
  from split_computed_once [OF o2 sp ne rf] have
    pf: "\<forall>ins. batchInserts e ?q = Some ins \<longrightarrow>
            queryPart1 ins = queryPart1 ?sf \<and> queryPart2 ins = queryPart2 ?sf \<and>
            queryPart3 ins = queryPart3 ?sf"
    by simp
  from i obtain ins where ins: "batchInserts d ?q = Some ins" by auto
  with p have "parts ins = (''INSERT INTO t (a,b)'', '' (?,?),'', [])"
    by (simp add: parts_def newInsert_def)
  with ins have 1: "map_option parts (batchInserts d ?q) = Some (''INSERT INTO t (a,b)'', '' (?,?),'', [])"
    by simp
  from j obtain ins2 where ins2: "batchInserts e ?q = Some ins2" by auto
  with pf have "parts ins2 = (''INSERT INTO t (a,b)'', '' (?,?),'', [])"
    by (simp add: parts_def newInsert_def)
  with ins2 have 2: "map_option parts (batchInserts e ?q) = Some (''INSERT INTO t (a,b)'', '' (?,?),'', [])"
    by simp
  from sp r nf c 1 rf 2 show ?thesis by blast
qed

text \<open>
  C8 as stated has \<open>splitQuery\<close> called at most once for a template. On a driver whose
  \<open>Prepare\<close> fails, with threshold 3: a first \<open>BatchInsert\<close> splits the template and
  buffers a row, \<open>FlushAll\<close> fails and empties the registry, and the next \<open>BatchInsert\<close>
  with the same template splits it again.
\<close>

theorem split_computed_once_counterexample:
  "splitQuery (newInsert :: int insert_t) ''INSERT INTO t (a,b) VALUES (?,?)'' =
     Some (newInsert\<lparr>queryPart1 := ''INSERT INTO t (a,b)'', queryPart2 := '' (?,?),''\<rparr>) \<and>
   Open no_prepare_driver ''mysql'' ''db'' 3 = Inr (\<lparr>sqlDB = SqlDB ''mysql'' ''db'', PreparedStatements = Map.empty,
          prepstmts = Map.empty, driverName = ''mysql'', flushInterval = 3,
          batchInserts = Map.empty, trace = [], splitCalls = []\<rparr> :: int DB) \<and>
   map_option splitCalls
     (run no_prepare_driver \<lparr>sqlDB = SqlDB ''mysql'' ''db'', PreparedStatements = Map.empty,
          prepstmts = Map.empty, driverName = ''mysql'', flushInterval = 3,
          batchInserts = Map.empty, trace = [], splitCalls = []\<rparr>
        [OpBatchInsert ''INSERT INTO t (a,b) VALUES (?,?)'' [1 :: int, 2],
         OpFlushAll [''INSERT INTO t (a,b) VALUES (?,?)''],
         OpBatchInsert ''INSERT INTO t (a,b) VALUES (?,?)'' [3, 4]]) =
     Some [''INSERT INTO t (a,b) VALUES (?,?)'', ''INSERT INTO t (a,b) VALUES (?,?)''] \<and>
   map_option (\<lambda>d. count_list (splitCalls d) ''INSERT INTO t (a,b) VALUES (?,?)'')
     (run no_prepare_driver \<lparr>sqlDB = SqlDB ''mysql'' ''db'', PreparedStatements = Map.empty,
          prepstmts = Map.empty, driverName = ''mysql'', flushInterval = 3,
          batchInserts = Map.empty, trace = [], splitCalls = []\<rparr>
        [OpBatchInsert ''INSERT INTO t (a,b) VALUES (?,?)'' [1 :: int, 2],
         OpFlushAll [''INSERT INTO t (a,b) VALUES (?,?)''],
         OpBatchInsert ''INSERT INTO t (a,b) VALUES (?,?)'' [3, 4]]) = Some 2"
proof -
  have o2: "Open no_prepare_driver ''mysql'' ''db'' 3 = Inr (\<lparr>sqlDB = SqlDB ''mysql'' ''db'', PreparedStatements = Map.empty,
          prepstmts = Map.empty, driverName = ''mysql'', flushInterval = 3,
          batchInserts = Map.empty, trace = [], splitCalls = []\<rparr> :: int DB)"
    by (simp add: Open_def no_prepare_driver_def)
  have sp: "splitQuery (newInsert :: int insert_t) ''INSERT INTO t (a,b) VALUES (?,?)'' =
     Some (newInsert\<lparr>queryPart1 := ''INSERT INTO t (a,b)'', queryPart2 := '' (?,?),''\<rparr>)"
    by (rule splitQuery_example_ab)
  have "map_option splitCalls
     (run no_prepare_driver \<lparr>sqlDB = SqlDB ''mysql'' ''db'', PreparedStatements = Map.empty,
          prepstmts = Map.empty, driverName = ''mysql'', flushInterval = 3,
          batchInserts = Map.empty, trace = [], splitCalls = []\<rparr>
        [OpBatchInsert ''INSERT INTO t (a,b) VALUES (?,?)'' [1 :: int, 2],
         OpFlushAll [''INSERT INTO t (a,b) VALUES (?,?)''],
         OpBatchInsert ''INSERT INTO t (a,b) VALUES (?,?)'' [3, 4]]) =
     Some [''INSERT INTO t (a,b) VALUES (?,?)'', ''INSERT INTO t (a,b) VALUES (?,?)'']"
    by (simp only: failed_FlushAll_between_two_rows) simp
  moreover have "map_option (\<lambda>d. count_list (splitCalls d) ''INSERT INTO t (a,b) VALUES (?,?)'')
     (run no_prepare_driver \<lparr>sqlDB = SqlDB ''mysql'' ''db'', PreparedStatements = Map.empty,
          prepstmts = Map.empty, driverName = ''mysql'', flushInterval = 3,
          batchInserts = Map.empty, trace = [], splitCalls = []\<rparr>
        [OpBatchInsert ''INSERT INTO t (a,b) VALUES (?,?)'' [1 :: int, 2],
         OpFlushAll [''INSERT INTO t (a,b) VALUES (?,?)''],
         OpBatchInsert ''INSERT INTO t (a,b) VALUES (?,?)'' [3, 4]]) = Some 2"
    by (simp only: failed_FlushAll_between_two_rows) simp
  ultimately show ?thesis using o2 sp by blast
qed

text \<open>
  C9. \<open>splitQuery\<close> returns only under a precondition: the pattern \<open>(?i)values\<close> matches;
  the conflict clause (the last match of its pattern, the one the code takes), when
  there is one, begins strictly after the end of the keyword, index \<open>ndxValues + 6\<close>;
  when there is none, a \<open>)\<close> stands at or after the end of the keyword. For every
  template outside the precondition, among them every template without the keyword, a
  slice expression is out of range and \<open>splitQuery\<close> panics; inside it, it returns.
\<close>

theorem splitQuery_panics_outside_precondition:
  "(splitQuery ins query = None) = (\<not> split_precondition query)"
proof -
  consider (none) "ndxValues query = - 1"
    | (some) a where "ndxValues query = int a" "a + 6 \<le> length query"
        "query ! (a + 5) \<noteq> CHR '')''"
    using ndxValues_cases [of query] by blast
  then show ?thesis
  proof cases
    case none
    then show ?thesis by (simp add: splitQuery_def slice_def split_precondition_def)
  next
    case some
    from some(2) have s1: "slice query 0 (int a) \<noteq> None" by (simp add: slice_def)
    show ?thesis
    proof (cases "ndxOnDupe query = - 1")
      case True
      let ?L = "LastIndex query (CHR '')'')"
      have lt: "?L < int (length query)" by (rule LastIndex_lt)
      have ne: "?L \<noteq> int (a + 5)"
      proof
        assume e: "?L = int (a + 5)"
        then have "0 \<le> ?L" by simp
        from LastIndex_nth [OF this] have "query ! nat ?L = CHR '')''" .
        moreover from e have "nat ?L = a + 5" by simp
        ultimately show False using some(3) by simp
      qed
      have "slice query (int a + 6) (?L + 1) = None \<longleftrightarrow> \<not> int (a + 6) \<le> ?L"
        using lt ne by (auto simp add: slice_def)
      also have "\<dots> \<longleftrightarrow> CHR '')'' \<notin> set (drop (a + 6) query)"
        by (simp only: LastIndex_ge_iff)
      finally have "slice query (int a + 6) (?L + 1) = None \<longleftrightarrow>
          CHR '')'' \<notin> set (drop (a + 6) query)" .
      moreover have "nat (int a + 6) = a + 6" by simp
      ultimately show ?thesis using True some(1) s1
        by (auto simp add: splitQuery_def split_precondition_def ndxParens_def
            split: option.splits)
    next
      case False
      with ndxOnDupe_cases [of query] have
        o: "0 \<le> ndxOnDupe query" "ndxOnDupe query < int (length query)" by auto
      have "slice query (int a + 6) (ndxOnDupe query - 1) = None \<longleftrightarrow>
              \<not> int a + 6 < ndxOnDupe query"
        using o by (auto simp add: slice_def)
      moreover have "slice query (ndxOnDupe query) (int (length query)) \<noteq> None"
        using o by (simp add: slice_def)
      ultimately show ?thesis using False some(1) s1
        by (auto simp add: splitQuery_def split_precondition_def split: option.splits)
    qed
  qed
qed

theorem splitQuery_panics_outside_precondition_witness:
  "\<not> split_precondition ''INSERT INTO t (a) SELECT 1'' \<and>
   splitQuery (newInsert :: int insert_t) ''INSERT INTO t (a) SELECT 1'' = None \<and>
   split_precondition ''INSERT INTO t (a,b) VALUES (?,?)'' \<and>
   splitQuery (newInsert :: int insert_t) ''INSERT INTO t (a,b) VALUES (?,?)'' \<noteq> None"
proof -
  have 1: "\<not> split_precondition ''INSERT INTO t (a) SELECT 1''"
    by code_simp
  have 2: "split_precondition ''INSERT INTO t (a,b) VALUES (?,?)''"
    by code_simp
  from 1 2
    splitQuery_panics_outside_precondition
      [of "newInsert :: int insert_t" "''INSERT INTO t (a) SELECT 1''"]
    splitQuery_panics_outside_precondition
      [of "newInsert :: int insert_t" "''INSERT INTO t (a,b) VALUES (?,?)''"]
  show ?thesis by blast
qed

text \<open>
  C10. When \<open>Prepare\<close> fails inside \<open>flushInsert\<close>, the error is returned and nothing else
  changes: the only call made is that \<open>Prepare\<close> (no \<open>Exec\<close>), the cache of prepared
  statements gets no entry and the struct is untouched. For every flush, the cache
  either stays as it is or gains the one entry of the text just prepared, and then
  \<open>Prepare\<close> succeeded; no operation (\<open>BatchInsert\<close>, a single flush, \<open>FlushAll\<close>) removes
  or changes an entry.
\<close>

theorem failed_prepare_changes_nothing:
  assumes "values_str ins \<noteq> []"
    and "prepstmts d (materialized ins) = None"
    and "Prepare env (trace d) (sqlDB d) (materialized ins) = Some e"
  shows "flushInsert env d ins =
           Some (d\<lparr>trace := trace d @ [PrepareCall (materialized ins)]\<rparr>, ins, Some e) \<and>
         (\<forall>env2 d2 ins2 d3 ins3 r.
            flushInsert env2 d2 ins2 = Some (d3, ins3, r) \<longrightarrow>
              prepstmts d2 \<subseteq>\<^sub>m prepstmts d3 \<and>
              (prepstmts d3 = prepstmts d2 \<or>
               (prepstmts d2 (materialized ins2) = None \<and>
                Prepare env2 (trace d2) (sqlDB d2) (materialized ins2) = None \<and>
                prepstmts d3 = (prepstmts d2)(materialized ins2 \<mapsto> Stmt (materialized ins2))))) \<and>
         (\<forall>env2 d2 x d3 r. step env2 d2 x = Some (d3, r) \<longrightarrow> prepstmts d2 \<subseteq>\<^sub>m prepstmts d3)"
proof -
  have a: "flushInsert env d ins =
           Some (d\<lparr>trace := trace d @ [PrepareCall (materialized ins)]\<rparr>, ins, Some e)"
    using assms by (simp add: flushInsert_eq flushQuery_prepare_fails)
  have b: "prepstmts d2 \<subseteq>\<^sub>m prepstmts d3 \<and>
              (prepstmts d3 = prepstmts d2 \<or>
               (prepstmts d2 (materialized ins2) = None \<and>
                Prepare env2 (trace d2) (sqlDB d2) (materialized ins2) = None \<and>
                prepstmts d3 = (prepstmts d2)(materialized ins2 \<mapsto> Stmt (materialized ins2))))"
    if "flushInsert env2 d2 ins2 = Some (d3, ins3, r)" for env2 d2 ins2 d3 ins3 r
  proof -
    from that have fq: "flushQuery env2 d2 ins2 (materialized ins2) = (d3, ins3, r)"
      by (simp add: flushInsert_Some)
    from flushQuery_cache [OF fq] flushQuery_cache_mono [OF fq] show ?thesis by blast
  qed
  have c: "prepstmts d2 \<subseteq>\<^sub>m prepstmts d3" if "step env2 d2 x = Some (d3, r)" for env2 d2 x d3 r
    using that by (rule step_cache_mono)
  from a b c show ?thesis by blast
qed

theorem failed_prepare_changes_nothing_witness:
  "values_str pending_ab \<noteq> [] \<and>
   prepstmts pending_db (materialized pending_ab) = None \<and>
   Prepare no_prepare_driver (trace pending_db) (sqlDB pending_db) (materialized pending_ab)
     = Some (Error ''syntax error'') \<and>
   flushInsert no_prepare_driver pending_db pending_ab =
     Some (pending_db\<lparr>trace := [PrepareCall ''INSERT INTO t (a,b) VALUES (?,?)'']\<rparr>,
           pending_ab, Some (Error ''syntax error''))"
proof -
  have 1: "values_str pending_ab \<noteq> []" by (rule pending_nonempty)
  have 2: "prepstmts pending_db (materialized pending_ab) = None"
    by (simp add: pending_db_def)
  have 3: "Prepare no_prepare_driver (trace pending_db) (sqlDB pending_db)
             (materialized pending_ab) = Some (Error ''syntax error'')"
    by (simp add: no_prepare_driver_def)
  have t: "trace pending_db = []" by (simp add: pending_db_def)
  from failed_prepare_changes_nothing [OF 1 2 3, THEN conjunct1]
  have "flushInsert no_prepare_driver pending_db pending_ab =
     Some (pending_db\<lparr>trace := [PrepareCall ''INSERT INTO t (a,b) VALUES (?,?)'']\<rparr>,
           pending_ab, Some (Error ''syntax error''))"
    by (simp add: materialized_pending t)
  with 1 2 3 show ?thesis by blast
qed

end
